theory Spec2Isabelle
  imports Main "HOL-Library.Multiset"
begin

section \<open>Arrays, indices and failures\<close>

text \<open>
  The arrays that are sorted hold numbers and have no holes; they are lists of integers.
  Indices are integers, as in the source, where \<open>array.length - 1\<close> and
  \<open>partitionLocation - 1\<close> may be \<open>-1\<close>.

  JavaScript does not throw when an array is indexed outside \<open>0 .. length - 1\<close>: a read
  gives \<open>undefined\<close> and a write grows the array or sets a property. The model does not
  follow such values; an access outside the array ends the run with \<open>OutOfRange\<close>.
  \<open>TypeError\<close> is the exception JavaScript throws on \<open>undefined.value\<close>.
\<close>

datatype error = OutOfRange | TypeError

definition in_range :: "'a list \<Rightarrow> int \<Rightarrow> bool" where
  "in_range xs i \<longleftrightarrow> 0 \<le> i \<and> i < int (length xs)"

definition read :: "'a list \<Rightarrow> int \<Rightarrow> error + 'a" where
  "read xs i = (if in_range xs i then Inr (xs ! nat i) else Inl OutOfRange)"

definition store :: "'a list \<Rightarrow> int \<Rightarrow> 'a \<Rightarrow> error + 'a list" where
  "store xs i v = (if in_range xs i then Inr (xs[nat i := v]) else Inl OutOfRange)"

definition and_then :: "error + 'a \<Rightarrow> ('a \<Rightarrow> error + 'b) \<Rightarrow> error + 'b" where
  "and_then r f = (case r of Inl e \<Rightarrow> Inl e | Inr x \<Rightarrow> f x)"

text \<open>\<open>swap(array, index1, index2)\<close>.\<close>

definition swap :: "'a list \<Rightarrow> int \<Rightarrow> int \<Rightarrow> error + 'a list" where
  "swap array index1 index2 =
     and_then (read array index1) (\<lambda>temporary.
     and_then (read array index2) (\<lambda>other.
     and_then (store array index1 other) (\<lambda>array1.
     store array1 index2 temporary)))"

section \<open>The display state\<close>

text \<open>
  One entry of \<open>binDimensions\<close>. The scaled height is whatever the d3 scale returns; its
  type is left open.
\<close>

record 'h bin =
  "value" :: int
  width :: string
  height :: 'h
  color :: string

section \<open>AppComponent: the counters\<close>

record app_component =
  optionClicked :: bool
  arrayAccessCount :: int
  comparisonCount :: int
  currentArraySize :: int

text \<open>The two subscriptions of \<open>ngOnInit\<close> on the counter subjects.\<close>

definition on_updateArrayAccessCount :: "int \<Rightarrow> app_component \<Rightarrow> app_component" where
  "on_updateArrayAccessCount newCount c = c\<lparr>arrayAccessCount := newCount\<rparr>"

definition on_updateComparisonCount :: "int \<Rightarrow> app_component \<Rightarrow> app_component" where
  "on_updateComparisonCount newCount c = c\<lparr>comparisonCount := comparisonCount c\<rparr>"

section \<open>The validator\<close>

record validation =
  index :: int
  originalColor :: string

text \<open>
  The loop of \<open>validateArray\<close>, from index \<open>i\<close>. \<open>this.binDimensions[i].value\<close> throws
  when the display state has no entry \<open>i\<close>; \<open>===\<close> is false when \<open>sorted[i]\<close> is
  undefined. (\<open>sorted_ref\<close> is the source's \<open>sorted\<close>.)
\<close>

function validate_loop ::
  "'h bin list \<Rightarrow> int list \<Rightarrow> int \<Rightarrow> validation list \<Rightarrow> error + validation list" where
  "validate_loop binDimensions sorted_ref i validationAnimations =
     (if i < int (length sorted_ref) then
        (case read binDimensions i of
           Inl _ \<Rightarrow> Inl TypeError
         | Inr b \<Rightarrow>
             if read sorted_ref i = Inr (value b)
             then validate_loop binDimensions sorted_ref (i + 1)
                    (validationAnimations @ [\<lparr>index = i, originalColor = color b\<rparr>])
             else Inr validationAnimations)
      else Inr validationAnimations)"
  by pat_completeness auto
termination
  by (relation "measure (\<lambda>(b, sorted_ref, i, v). nat (int (length sorted_ref) - i))") auto

declare validate_loop.simps [simp del]

text \<open>
  \<open>generatedArrayUnsorted.sort((a, b) => a - b)\<close> sorts numbers ascending; on integers
  that is \<^const>\<open>sort\<close>.
\<close>

definition validateArray ::
  "'h bin list \<Rightarrow> int list \<Rightarrow> validation list \<Rightarrow> error + validation list" where
  "validateArray binDimensions generatedArrayUnsorted validationAnimations =
     (let sorted_ref = sort generatedArrayUnsorted
      in validate_loop binDimensions sorted_ref 0 validationAnimations)"

section \<open>Bubble sort\<close>

text \<open>
  A sort routine works on the array and on \<open>this.animations\<close>, the move log; both are
  threaded through as a pair. A move of bubble sort is the object \<open>{lo: i, hi: i + 1}\<close>.
\<close>

datatype bubble_action = LoHi int int

text \<open>The loop of \<open>bubble(array, lo, hi)\<close>, from index \<open>i\<close>.\<close>

function bubble_loop ::
  "int list \<times> bubble_action list \<Rightarrow> int \<Rightarrow> int \<Rightarrow> error + int list \<times> bubble_action list" where
  "bubble_loop (array, animations) hi i =
     (if i < hi then
        (case read array i of Inl e \<Rightarrow> Inl e | Inr x \<Rightarrow>
         case read array (i + 1) of Inl e \<Rightarrow> Inl e | Inr y \<Rightarrow>
           if x > y then
             (case swap array i (i + 1) of Inl e \<Rightarrow> Inl e | Inr array' \<Rightarrow>
                bubble_loop (array', animations @ [LoHi i (i + 1)]) hi (i + 1))
           else bubble_loop (array, animations) hi (i + 1))
      else Inr (array, animations))"
  by pat_completeness auto
termination
  by (relation "measure (\<lambda>(s, hi, i). nat (hi - i))") auto

declare bubble_loop.simps [simp del]

definition bubble ::
  "int list \<times> bubble_action list \<Rightarrow> int \<Rightarrow> int \<Rightarrow> error + int list \<times> bubble_action list" where
  "bubble s lo hi = bubble_loop s hi lo"

text \<open>The loop of \<open>bubbleSort\<close>, from outer index \<open>i\<close> downwards.\<close>

function bubbleSort_loop ::
  "int list \<times> bubble_action list \<Rightarrow> int \<Rightarrow> error + int list \<times> bubble_action list" where
  "bubbleSort_loop s i =
     (if i > 0 then
        (case bubble s 0 i of Inl e \<Rightarrow> Inl e | Inr s' \<Rightarrow> bubbleSort_loop s' (i - 1))
      else Inr s)"
  by pat_completeness auto
termination
  by (relation "measure (\<lambda>(s, i). nat i)") auto

declare bubbleSort_loop.simps [simp del]

definition bubbleSort ::
  "int list \<times> bubble_action list \<Rightarrow> error + int list \<times> bubble_action list" where
  "bubbleSort s = bubbleSort_loop s (int (length (fst s)) - 1)"

text \<open>
  A sequence of passes \<open>bubble(array, 0, i)\<close>, one for each outer index of the list, in
  the order of the list. It names the states between the passes of \<open>bubbleSort\<close>.
\<close>

fun bubble_passes ::
  "int list \<times> bubble_action list \<Rightarrow> int list \<Rightarrow> error + int list \<times> bubble_action list" where
  "bubble_passes s [] = Inr s"
| "bubble_passes s (i # is) =
     (case bubble s 0 i of Inl e \<Rightarrow> Inl e | Inr s' \<Rightarrow> bubble_passes s' is)"

section \<open>Merge sort\<close>

text \<open>
  A move of merge sort is the object \<open>{index: k, value: v}\<close>. The auxiliary array starts
  empty and is written at the indices \<open>lo .. hi\<close> of each merge, wherever they lie, and
  its length is never read: it is the map from the indices written so far to their values
  (an index never written reads as \<open>undefined\<close>, here \<open>None\<close>).
\<close>

datatype merge_action = IndexValue int int

type_synonym merge_state = "int list \<times> (int \<Rightarrow> int option) \<times> merge_action list"

text \<open>The copy loop \<open>aux[i] = a[i]\<close> of \<open>merge\<close>, from index \<open>i\<close>.\<close>

function merge_copy :: "int list \<Rightarrow> (int \<Rightarrow> int option) \<Rightarrow> int \<Rightarrow> int \<Rightarrow> error + (int \<Rightarrow> int option)" where
  "merge_copy a aux hi i =
     (if i \<le> hi then
        (case read a i of Inl e \<Rightarrow> Inl e | Inr x \<Rightarrow> merge_copy a (aux(i \<mapsto> x)) hi (i + 1))
      else Inr aux)"
  by pat_completeness auto
termination
  by (relation "measure (\<lambda>(a, aux, hi, i). nat (hi + 1 - i))") auto

declare merge_copy.simps [simp del]

text \<open>
  \<open>this.animations.push({ index: k, value: aux[src] }); a[k] = aux[src]\<close>. Writing
  \<open>undefined\<close> into the main array is outside the model.
\<close>

definition merge_put :: "merge_state \<Rightarrow> int \<Rightarrow> int \<Rightarrow> error + merge_state" where
  "merge_put s k src =
     (case s of (a, aux, animations) \<Rightarrow>
        (case aux src of
           None \<Rightarrow> Inl OutOfRange
         | Some v \<Rightarrow>
             (case store a k v of
                Inl e \<Rightarrow> Inl e
              | Inr a' \<Rightarrow> Inr (a', aux, animations @ [IndexValue k v]))))"

text \<open>\<open>x > y\<close> on values that may be \<open>undefined\<close>: false unless both are numbers.\<close>

fun js_greater :: "int option \<Rightarrow> int option \<Rightarrow> bool" where
  "js_greater (Some x) (Some y) = (x > y)"
| "js_greater _ _ = False"

text \<open>
  One iteration of the main loop of \<open>merge\<close>: the state and the two cursors \<open>i\<close>, \<open>j\<close>
  after it.
\<close>

definition merge_step ::
  "merge_state \<Rightarrow> int \<Rightarrow> int \<Rightarrow> int \<Rightarrow> int \<Rightarrow> int \<Rightarrow> error + merge_state \<times> int \<times> int" where
  "merge_step s mid hi i j k =
     (if i > mid then
        (case merge_put s k j of Inl e \<Rightarrow> Inl e | Inr s' \<Rightarrow> Inr (s', i, j + 1))
      else if j > hi then
        (case merge_put s k i of Inl e \<Rightarrow> Inl e | Inr s' \<Rightarrow> Inr (s', i + 1, j))
      else if js_greater ((fst (snd s)) i) ((fst (snd s)) j) then
        (case merge_put s k j of Inl e \<Rightarrow> Inl e | Inr s' \<Rightarrow> Inr (s', i, j + 1))
      else
        (case merge_put s k i of Inl e \<Rightarrow> Inl e | Inr s' \<Rightarrow> Inr (s', i + 1, j)))"

function merge_loop ::
  "merge_state \<Rightarrow> int \<Rightarrow> int \<Rightarrow> int \<Rightarrow> int \<Rightarrow> int \<Rightarrow> error + merge_state" where
  "merge_loop s mid hi i j k =
     (if k \<le> hi then
        (case merge_step s mid hi i j k of
           Inl e \<Rightarrow> Inl e
         | Inr (s', i', j') \<Rightarrow> merge_loop s' mid hi i' j' (k + 1))
      else Inr s)"
  by pat_completeness auto
termination
  by (relation "measure (\<lambda>(s, mid, hi, i, j, k). nat (hi + 1 - k))") auto

declare merge_loop.simps [simp del]

definition merge :: "merge_state \<Rightarrow> int \<Rightarrow> int \<Rightarrow> int \<Rightarrow> error + merge_state" where
  "merge s lo mid hi =
     (case s of (a, aux, animations) \<Rightarrow>
        (case merge_copy a aux hi lo of
           Inl e \<Rightarrow> Inl e
         | Inr aux' \<Rightarrow> merge_loop (a, aux', animations) mid hi lo (mid + 1) lo))"

text \<open>
  \<open>Math.floor(lo + (hi - lo) / 2)\<close> on integers is \<open>lo + (hi - lo) div 2\<close>:
  \<^const>\<open>divide\<close> on \<^typ>\<open>int\<close> rounds down.
\<close>

function mergeSort :: "merge_state \<Rightarrow> int \<Rightarrow> int \<Rightarrow> error + merge_state" where
  "mergeSort s lo hi =
     (if hi \<le> lo then Inr s
      else
        (let mid = lo + (hi - lo) div 2 in
         case mergeSort s lo mid of
           Inl e \<Rightarrow> Inl e
         | Inr s1 \<Rightarrow>
             (case mergeSort s1 (mid + 1) hi of
                Inl e \<Rightarrow> Inl e
              | Inr s2 \<Rightarrow> merge s2 lo mid hi)))"
  by pat_completeness auto
termination
  by (relation "measure (\<lambda>(s, lo, hi). nat (hi - lo))") auto

declare mergeSort.simps [simp del]

section \<open>Counting sort\<close>

text \<open>
  A move of counting sort is the object \<open>{index: sortedPosition, newValue: key}\<close>. A
  negative key is not an array index: \<open>count[key]\<close> is then a property of the array
  object, \<open>undefined\<close> at first and \<open>NaN\<close> after \<open>++\<close> or \<open>--\<close>, so that
  \<open>sortedPosition\<close> is \<open>NaN\<close> and \<open>aux[NaN] = key\<close> sets a property as well; the
  elements of \<open>count\<close> and \<open>aux\<close> are not touched. A key that is not negative is at
  most \<open>max\<close>, an index of \<open>count\<close> (\<open>counts\<close> here).
\<close>

datatype js_index = Index int | NaN

datatype counting_action = IndexNewValue (action_index: js_index) (action_newValue: int)

text \<open>
  \<open>count\<close> after the first loop: \<open>max + 1\<close> zeros. \<open>Math.max()\<close> of no arguments
  is \<open>-Infinity\<close>, and the loop does not run.
\<close>

definition countingSort_init :: "int list \<Rightarrow> int list" where
  "countingSort_init array =
     (if array = [] then [] else replicate (nat (Max (set array) + 1)) 0)"

text \<open>The loop \<open>count[key]++\<close>, from index \<open>i\<close>.\<close>

function countingSort_tally :: "int list \<Rightarrow> int list \<Rightarrow> int \<Rightarrow> error + int list" where
  "countingSort_tally array counts i =
     (if i < int (length array) then
        (case read array i of Inl e \<Rightarrow> Inl e | Inr key \<Rightarrow>
           if key < 0 then countingSort_tally array counts (i + 1)
           else
             (case read counts key of Inl e \<Rightarrow> Inl e | Inr c \<Rightarrow>
              case store counts key (c + 1) of Inl e \<Rightarrow> Inl e | Inr counts' \<Rightarrow>
                countingSort_tally array counts' (i + 1)))
      else Inr counts)"
  by pat_completeness auto
termination
  by (relation "measure (\<lambda>(array, counts, i). nat (int (length array) - i))") auto

declare countingSort_tally.simps [simp del]

text \<open>The loop \<open>count[i + 1] += count[i]\<close>, from index \<open>i\<close>.\<close>

function countingSort_accumulate :: "int list \<Rightarrow> int \<Rightarrow> error + int list" where
  "countingSort_accumulate counts i =
     (if i < int (length counts) - 1 then
        (case read counts i of Inl e \<Rightarrow> Inl e | Inr delta \<Rightarrow>
         case read counts (i + 1) of Inl e \<Rightarrow> Inl e | Inr c \<Rightarrow>
         case store counts (i + 1) (c + delta) of Inl e \<Rightarrow> Inl e | Inr counts' \<Rightarrow>
           countingSort_accumulate counts' (i + 1))
      else Inr counts)"
  by pat_completeness auto
termination
  by (relation "measure (\<lambda>(counts, i). nat (int (length counts) - i))")
     (auto simp: store_def split: if_splits)

declare countingSort_accumulate.simps [simp del]

text \<open>The loop that inserts each element in its sorted position, from index \<open>i\<close> downwards.\<close>

function countingSort_place ::
  "int list \<Rightarrow> int list \<times> int list \<times> counting_action list \<Rightarrow> int \<Rightarrow>
   error + int list \<times> int list \<times> counting_action list" where
  "countingSort_place array (counts, aux, animations) i =
     (if i \<ge> 0 then
        (case read array i of Inl e \<Rightarrow> Inl e | Inr key \<Rightarrow>
           if key < 0 then
             countingSort_place array (counts, aux, animations @ [IndexNewValue NaN key]) (i - 1)
           else
             (case read counts key of Inl e \<Rightarrow> Inl e | Inr c \<Rightarrow>
              let sortedPosition = c - 1 in
              case store counts key sortedPosition of Inl e \<Rightarrow> Inl e | Inr counts' \<Rightarrow>
              case store aux sortedPosition key of Inl e \<Rightarrow> Inl e | Inr aux' \<Rightarrow>
                countingSort_place array
                  (counts', aux', animations @ [IndexNewValue (Index sortedPosition) key]) (i - 1)))
      else Inr (counts, aux, animations))"
  by pat_completeness auto
termination
  by (relation "measure (\<lambda>(array, s, i). nat (i + 1))") auto

declare countingSort_place.simps [simp del]

text \<open>The loop \<open>array[i] = aux[i]\<close>, from index \<open>i\<close>.\<close>

function countingSort_copy :: "int list \<Rightarrow> int list \<Rightarrow> int \<Rightarrow> error + int list" where
  "countingSort_copy array aux i =
     (if i < int (length aux) then
        (case read aux i of Inl e \<Rightarrow> Inl e | Inr v \<Rightarrow>
         case store array i v of Inl e \<Rightarrow> Inl e | Inr array' \<Rightarrow>
           countingSort_copy array' aux (i + 1))
      else Inr array)"
  by pat_completeness auto
termination
  by (relation "measure (\<lambda>(array, aux, i). nat (int (length aux) - i))") auto

declare countingSort_copy.simps [simp del]

definition countingSort ::
  "int list \<times> counting_action list \<Rightarrow> error + int list \<times> counting_action list" where
  "countingSort s =
     (case s of (array, animations) \<Rightarrow>
        (case countingSort_tally array (countingSort_init array) 0 of
           Inl e \<Rightarrow> Inl e
         | Inr counts1 \<Rightarrow>
        (case countingSort_accumulate counts1 0 of
           Inl e \<Rightarrow> Inl e
         | Inr counts2 \<Rightarrow>
        (case countingSort_place array (counts2, replicate (length array) 0, animations)
                (int (length array) - 1) of
           Inl e \<Rightarrow> Inl e
         | Inr (counts3, aux, animations') \<Rightarrow>
        (case countingSort_copy array aux 0 of
           Inl e \<Rightarrow> Inl e
         | Inr array' \<Rightarrow> Inr (array', animations'))))))"

section \<open>Quick sort\<close>

text \<open>
  The moves of quick sort are the objects \<open>{name: 'swap-element', index1, index2}\<close> and
  \<open>{name: 'swap-pivot', pivotIndex, swapIndex}\<close>. The cursor \<open>end\<close> of the source is
  \<open>endIdx\<close> here.
\<close>

datatype quick_action = SwapElement int int | SwapPivot int int

text \<open>
  \<open>while (array[start] <= pivot) { if (start >= hi) break; start++; }\<close>: the value of
  \<open>start\<close> after the loop.
\<close>

function partition_scan_start :: "int list \<Rightarrow> int \<Rightarrow> int \<Rightarrow> int \<Rightarrow> error + int" where
  "partition_scan_start array pivot hi start =
     (case read array start of Inl e \<Rightarrow> Inl e | Inr x \<Rightarrow>
        if x \<le> pivot then
          (if start \<ge> hi then Inr start
           else partition_scan_start array pivot hi (start + 1))
        else Inr start)"
  by pat_completeness auto
termination
  by (relation "measure (\<lambda>(array, pivot, hi, start). nat (hi - start))") auto

declare partition_scan_start.simps [simp del]

text \<open>\<open>while (array[end] > pivot) { end--; }\<close>: the value of \<open>end\<close> after the loop.\<close>

function partition_scan_end :: "int list \<Rightarrow> int \<Rightarrow> int \<Rightarrow> error + int" where
  "partition_scan_end array pivot endIdx =
     (case read array endIdx of Inl e \<Rightarrow> Inl e | Inr x \<Rightarrow>
        if x > pivot then partition_scan_end array pivot (endIdx - 1)
        else Inr endIdx)"
  by pat_completeness auto
termination
  by (relation "measure (\<lambda>(array, pivot, endIdx). nat (endIdx + 1))")
     (auto simp: read_def in_range_def split: if_splits)

declare partition_scan_end.simps [simp del]

text \<open>
  The loop \<open>while (true)\<close> of \<open>partition\<close>; \<open>None\<close> when it does not return. Its value
  is the state and the final \<open>end\<close>.
\<close>

partial_function (option) partition_loop ::
  "int list \<times> quick_action list \<Rightarrow> int \<Rightarrow> int \<Rightarrow> int \<Rightarrow> int \<Rightarrow>
   (error + (int list \<times> quick_action list) \<times> int) option" where
  "partition_loop s pivot hi start endIdx =
     (case partition_scan_start (fst s) pivot hi start of
        Inl e \<Rightarrow> Some (Inl e)
      | Inr start' \<Rightarrow>
     (case partition_scan_end (fst s) pivot endIdx of
        Inl e \<Rightarrow> Some (Inl e)
      | Inr end' \<Rightarrow>
          if start' \<ge> end' then Some (Inr (s, end'))
          else
            (case swap (fst s) start' end' of
               Inl e \<Rightarrow> Some (Inl e)
             | Inr array' \<Rightarrow>
                 partition_loop (array', snd s @ [SwapElement start' end']) pivot hi start' end')))"

declare partition_loop.simps [code]

definition partition ::
  "int list \<times> quick_action list \<Rightarrow> int \<Rightarrow> int \<Rightarrow>
   (error + (int list \<times> quick_action list) \<times> int) option" where
  "partition s lo hi =
     (case read (fst s) lo of
        Inl e \<Rightarrow> Some (Inl e)
      | Inr pivot \<Rightarrow>
     (case partition_loop s pivot hi lo hi of
        None \<Rightarrow> None
      | Some (Inl e) \<Rightarrow> Some (Inl e)
      | Some (Inr ((array, animations), endIdx)) \<Rightarrow>
          (case swap array lo endIdx of
             Inl e \<Rightarrow> Some (Inl e)
           | Inr array' \<Rightarrow> Some (Inr ((array', animations @ [SwapPivot lo endIdx]), endIdx)))))"

partial_function (option) quickSort ::
  "int list \<times> quick_action list \<Rightarrow> int \<Rightarrow> int \<Rightarrow> (error + int list \<times> quick_action list) option" where
  "quickSort s lo hi =
     (if lo \<ge> hi then Some (Inr s)
      else
        (case partition s lo hi of
           None \<Rightarrow> None
         | Some (Inl e) \<Rightarrow> Some (Inl e)
         | Some (Inr (s1, partitionLocation)) \<Rightarrow>
             Option.bind (quickSort s1 lo (partitionLocation - 1))
               (\<lambda>r. case r of
                  Inl e \<Rightarrow> Some (Inl e)
                | Inr s2 \<Rightarrow> quickSort s2 (partitionLocation + 1) hi)))"

declare quickSort.simps [code]

section \<open>The move player\<close>

text \<open>
  Each animation pops one move from the end of \<open>this.animations\<close> at every tick of its
  timer, until the array is empty. The ticks are run one after the other here; what the
  player does after the last move (\<open>validate()\<close>) is not part of these functions.
\<close>

function bubbleSortAnimation ::
  "'h bin list \<Rightarrow> bubble_action list \<Rightarrow> error + 'h bin list" where
  "bubbleSortAnimation binDimensions animations =
     (if animations = [] then Inr binDimensions
      else
        (case last animations of LoHi l h \<Rightarrow>
           (case swap binDimensions l h of
              Inl e \<Rightarrow> Inl e
            | Inr binDimensions' \<Rightarrow> bubbleSortAnimation binDimensions' (butlast animations))))"
  by pat_completeness auto
termination
  by (relation "measure (\<lambda>(b, animations). length animations)") auto

declare bubbleSortAnimation.simps [simp del]

text \<open>
  \<open>calculateBinDimension(i, value)\<close>. The two scales are d3 objects built elsewhere and
  are parameters here; \<open>height\<close> holds the scaled height (the source stores it as a string
  of pixels). \<open>this.binDimensions[i].value = value\<close> throws when there is no entry \<open>i\<close>.
\<close>

definition calculateBinDimension ::
  "(int \<Rightarrow> 'h) \<Rightarrow> ('h \<Rightarrow> string) \<Rightarrow> 'h bin list \<Rightarrow> js_index \<Rightarrow> int \<Rightarrow> error + 'h bin list" where
  "calculateBinDimension heightScale colorScale binDimensions i v =
     (let heightScaled = heightScale v; c = colorScale heightScaled in
      case i of
        NaN \<Rightarrow> Inl TypeError
      | Index n \<Rightarrow>
          (case read binDimensions n of
             Inl _ \<Rightarrow> Inl TypeError
           | Inr b \<Rightarrow> store binDimensions n (b\<lparr>value := v, height := heightScaled, color := c\<rparr>)))"

function animateMergeSort ::
  "(int \<Rightarrow> 'h) \<Rightarrow> ('h \<Rightarrow> string) \<Rightarrow> 'h bin list \<Rightarrow> merge_action list \<Rightarrow> error + 'h bin list" where
  "animateMergeSort heightScale colorScale binDimensions animations =
     (if animations = [] then Inr binDimensions
      else
        (case last animations of IndexValue k v \<Rightarrow>
           (case calculateBinDimension heightScale colorScale binDimensions (Index k) v of
              Inl e \<Rightarrow> Inl e
            | Inr binDimensions' \<Rightarrow>
                animateMergeSort heightScale colorScale binDimensions' (butlast animations))))"
  by pat_completeness auto
termination
  by (relation "measure (\<lambda>(hs, cs, b, animations). length animations)") auto

declare animateMergeSort.simps [simp del]

function animateCountingSort ::
  "(int \<Rightarrow> 'h) \<Rightarrow> ('h \<Rightarrow> string) \<Rightarrow> 'h bin list \<Rightarrow> counting_action list \<Rightarrow> error + 'h bin list" where
  "animateCountingSort heightScale colorScale binDimensions animations =
     (if animations = [] then Inr binDimensions
      else
        (case last animations of IndexNewValue k v \<Rightarrow>
           (case calculateBinDimension heightScale colorScale binDimensions k v of
              Inl e \<Rightarrow> Inl e
            | Inr binDimensions' \<Rightarrow>
                animateCountingSort heightScale colorScale binDimensions' (butlast animations))))"
  by pat_completeness auto
termination
  by (relation "measure (\<lambda>(hs, cs, b, animations). length animations)") auto

declare animateCountingSort.simps [simp del]

function animateQuickSort ::
  "'h bin list \<Rightarrow> quick_action list \<Rightarrow> error + 'h bin list" where
  "animateQuickSort binDimensions animations =
     (if animations = [] then Inr binDimensions
      else
        (case (case last animations of
                 SwapElement index1 index2 \<Rightarrow> swap binDimensions index1 index2
               | SwapPivot pivotIndex swapIndex \<Rightarrow> swap binDimensions pivotIndex swapIndex) of
           Inl e \<Rightarrow> Inl e
         | Inr binDimensions' \<Rightarrow> animateQuickSort binDimensions' (butlast animations)))"
  by pat_completeness auto
termination
  by (relation "measure (\<lambda>(b, animations). length animations)") auto

declare animateQuickSort.simps [simp del]

text \<open>
  \<open>onOptionClicked(option)\<close>: the move log is emptied, the chosen routine sorts
  \<open>generatedArray\<close>, the log is reversed and the animation drains it against
  \<open>binDimensions\<close>. The value is the array and the display state when the animation has
  popped its last move; \<open>None\<close> when the sort does not return. Any other label falls
  through the \<open>switch\<close>.
\<close>

definition onOptionClicked ::
  "(int \<Rightarrow> 'h) \<Rightarrow> ('h \<Rightarrow> string) \<Rightarrow> string \<Rightarrow> int list \<times> 'h bin list \<Rightarrow>
   (error + int list \<times> 'h bin list) option" where
  "onOptionClicked heightScale colorScale label c =
     (case c of (generatedArray, binDimensions) \<Rightarrow>
        if label = ''Bubble Sort'' then
          (case bubbleSort (generatedArray, []) of
             Inl e \<Rightarrow> Some (Inl e)
           | Inr (array, animations) \<Rightarrow>
               Some (map_sum id (Pair array) (bubbleSortAnimation binDimensions (rev animations))))
        else if label = ''Merge Sort'' then
          (case mergeSort (generatedArray, Map.empty, []) 0 (int (length generatedArray) - 1) of
             Inl e \<Rightarrow> Some (Inl e)
           | Inr (array, aux, animations) \<Rightarrow>
               Some (map_sum id (Pair array)
                 (animateMergeSort heightScale colorScale binDimensions (rev animations))))
        else if label = ''Counting Sort'' then
          (case countingSort (generatedArray, []) of
             Inl e \<Rightarrow> Some (Inl e)
           | Inr (array, animations) \<Rightarrow>
               Some (map_sum id (Pair array)
                 (animateCountingSort heightScale colorScale binDimensions (rev animations))))
        else if label = ''Quick Sort'' then
          (case quickSort (generatedArray, []) 0 (int (length generatedArray) - 1) of
             None \<Rightarrow> None
           | Some (Inl e) \<Rightarrow> Some (Inl e)
           | Some (Inr (array, animations)) \<Rightarrow>
               Some (map_sum id (Pair array) (animateQuickSort binDimensions (rev animations))))
        else Some (Inr (generatedArray, binDimensions)))"

section \<open>Specification predicates\<close>

text \<open>
  The suffix of \<open>a\<close> from index \<open>j\<close> is in its final place: it is sorted and no element
  before it is greater than one of its elements.
\<close>

definition suffix_placed :: "int list \<Rightarrow> nat \<Rightarrow> bool" where
  "suffix_placed a j \<longleftrightarrow>
     sorted (drop j a) \<and> (\<forall>x\<in>set (take j a). \<forall>y\<in>set (drop j a). x \<le> y)"

text \<open>
  The slot of the element at input index \<open>i\<close> in a stable sort of \<open>a\<close>: the number of
  smaller elements plus the number of equal elements before \<open>i\<close>.
\<close>

definition stable_position :: "int list \<Rightarrow> nat \<Rightarrow> nat" where
  "stable_position a i =
     length (filter (\<lambda>x. x < a ! i) a) + length (filter (\<lambda>x. x = a ! i) (take i a))"

definition placed :: "int list \<Rightarrow> nat \<Rightarrow> int list \<Rightarrow> int list" where
  "placed a n xs = fold (\<lambda>j xs. xs[stable_position a j := a ! j]) (rev [0..<n]) xs"

definition placements :: "int list \<Rightarrow> nat \<Rightarrow> counting_action list" where
  "placements a n =
     map (\<lambda>j. IndexNewValue (Index (int (stable_position a j))) (a ! j)) (rev [0..<n])"

text \<open>
  The merge of two lists that the loop of \<open>merge\<close> computes: the smaller head first, the
  head of the left list on a tie.
\<close>

fun merge_lists :: "int list \<Rightarrow> int list \<Rightarrow> int list" where
  "merge_lists [] ys = ys"
| "merge_lists xs [] = xs"
| "merge_lists (x # xs) (y # ys) =
     (if x > y then y # merge_lists (x # xs) ys else x # merge_lists xs (y # ys))"

text \<open>The moves that record writing the values \<open>vs\<close> at the indices from \<open>k\<close> upwards.\<close>

fun writes :: "nat \<Rightarrow> int list \<Rightarrow> merge_action list" where
  "writes k [] = []"
| "writes k (v # vs) = IndexValue (int k) v # writes (Suc k) vs"

text \<open>The elements of \<open>a\<close> at the indices \<open>lo .. hi\<close>.\<close>

definition slice :: "'a list \<Rightarrow> int \<Rightarrow> int \<Rightarrow> 'a list" where
  "slice a lo hi = take (nat (hi + 1 - lo)) (drop (nat lo) a)"

section \<open>Basic facts about array accesses\<close>

lemma in_range_nat: "in_range xs (int n) \<longleftrightarrow> n < length xs"
  by (simp add: in_range_def)

lemma read_in_range: "in_range xs i \<Longrightarrow> read xs i = Inr (xs ! nat i)"
  by (simp add: read_def)

lemma read_out_of_range: "\<not> in_range xs i \<Longrightarrow> read xs i = Inl OutOfRange"
  by (simp add: read_def)

lemma store_in_range: "in_range xs i \<Longrightarrow> store xs i v = Inr (xs[nat i := v])"
  by (simp add: store_def)

lemma swap_in_range:
  "in_range xs i \<Longrightarrow> in_range xs j \<Longrightarrow>
   swap xs i j = Inr (xs[nat i := xs ! nat j, nat j := xs ! nat i])"
  by (simp add: swap_def and_then_def read_def store_def in_range_def)

section \<open>Bubble sort: each pass, the passes, the replay\<close>

lemma swap_nat:
  "i < length xs \<Longrightarrow> j < length xs \<Longrightarrow>
   swap xs (int i) (int j) = Inr (xs[i := xs ! j, j := xs ! i])"
  by (simp add: swap_in_range in_range_nat)

lemma map_value_swap:
  "map f (xs[i := xs ! j, j := xs ! i]) = (map f xs)[i := map f xs ! j, j := map f xs ! i]"
  if "i < length xs" "j < length xs"
  using that by (simp add: map_update)

lemma bubbleSortAnimation_Nil: "bubbleSortAnimation b [] = Inr b"
  by (simp add: bubbleSortAnimation.simps)

lemma bubbleSortAnimation_snoc:
  "bubbleSortAnimation b (ms @ [LoHi l h]) =
     (case swap b l h of Inl e \<Rightarrow> Inl e | Inr b' \<Rightarrow> bubbleSortAnimation b' ms)"
  by (simp add: bubbleSortAnimation.simps [of b "ms @ [LoHi l h]"] cong: sum.case_cong)

lemma bubbleSortAnimation_append:
  "bubbleSortAnimation b (xs @ ys) =
     (case bubbleSortAnimation b ys of
        Inl e \<Rightarrow> Inl e
      | Inr b' \<Rightarrow> bubbleSortAnimation b' xs)"
proof (induction ys arbitrary: b rule: rev_induct)
  case Nil
  show ?case by (simp add: bubbleSortAnimation_Nil)
next
  case (snoc m ys)
  obtain l h where m: "m = LoHi l h" by (cases m)
  have "bubbleSortAnimation b (xs @ ys @ [m]) =
        (case swap b l h of Inl e \<Rightarrow> Inl e | Inr b' \<Rightarrow> bubbleSortAnimation b' (xs @ ys))"
    using bubbleSortAnimation_snoc [of b "xs @ ys" l h] by (simp add: m)
  then show ?case
    by (simp add: m bubbleSortAnimation_snoc snoc.IH split: sum.splits)
qed

lemma bubbleSortAnimation_rev_append:
  assumes "bubbleSortAnimation b (rev ms) = Inr b1" "bubbleSortAnimation b1 (rev ms') = Inr b2"
  shows "bubbleSortAnimation b (rev (ms @ ms')) = Inr b2"
  using assms by (simp add: bubbleSortAnimation_append)

lemma bubbleSortAnimation_single:
  "bubbleSortAnimation b (rev [LoHi l h]) = swap b l h"
  using bubbleSortAnimation_snoc [of b "[]" l h]
  by (simp add: bubbleSortAnimation_Nil split: sum.splits)

lemma bubble_loop_done: "\<not> i < hi \<Longrightarrow> bubble_loop s hi i = Inr s"
  by (cases s) (simp add: bubble_loop.simps)

lemma bubble_loop_step:
  assumes "k < hi" "hi < length a"
  shows "bubble_loop (a, log) (int hi) (int k) =
         (if a ! k > a ! Suc k
          then bubble_loop (a[k := a ! Suc k, Suc k := a ! k], log @ [LoHi (int k) (int (Suc k))])
                 (int hi) (int (Suc k))
          else bubble_loop (a, log) (int hi) (int (Suc k)))"
proof -
  have r: "read a (int k) = Inr (a ! k)" "read a (int k + 1) = Inr (a ! Suc k)"
    using assms by (simp_all add: read_def in_range_def nat_add_distrib)
  have s: "swap a (int k) (int k + 1) = Inr (a[k := a ! Suc k, Suc k := a ! k])"
    using swap_nat [of k a "Suc k"] assms by (simp add: add.commute)
  show ?thesis
    using assms r s
    by (simp add: bubble_loop.simps [of a log "int hi" "int k"] add.commute)
qed

lemma bubble_loop_correct:
  assumes "hi < length a" "k \<le> hi" "\<forall>m\<le>k. a ! m \<le> a ! k"
  shows "\<exists>a' ms. bubble_loop (a, log) (int hi) (int k) = Inr (a', log @ ms)
           \<and> length a' = length a \<and> mset a' = mset a
           \<and> (\<forall>m. hi < m \<and> m < length a \<longrightarrow> a' ! m = a ! m)
           \<and> (\<forall>m\<le>hi. a' ! m \<le> a' ! hi)
           \<and> (\<forall>b :: 'h bin list. map value b = a \<longrightarrow>
                 (\<exists>b'. bubbleSortAnimation b (rev ms) = Inr b' \<and> map value b' = a'))"
  using assms
proof (induction "hi - k" arbitrary: a log k)
  case 0
  then have "k = hi" by simp
  then have "bubble_loop (a, log) (int hi) (int k) = Inr (a, log @ [])"
    by (simp add: bubble_loop_done)
  then show ?case using 0 \<open>k = hi\<close> by (fastforce simp: bubbleSortAnimation_Nil)
next
  case (Suc d)
  then have lt: "k < hi" and d: "d = hi - Suc k" by simp_all
  have kl: "k < length a" "Suc k < length a" using lt Suc.prems(1) by simp_all
  show ?case
  proof (cases "a ! k > a ! Suc k")
    case True
    let ?a = "a[k := a ! Suc k, Suc k := a ! k]"
    let ?m = "LoHi (int k) (int (Suc k))"
    have mx: "\<forall>m\<le>Suc k. ?a ! m \<le> ?a ! Suc k"
    proof (intro allI impI)
      fix m assume "m \<le> Suc k"
      then consider "m = Suc k" | "m = k" | "m < k" by linarith
      then show "?a ! m \<le> ?a ! Suc k"
      proof cases
        case 1 then show ?thesis by simp
      next
        case 2 then show ?thesis using True kl by simp
      next
        case 3 then show ?thesis using Suc.prems(3) kl by simp
      qed
    qed
    have "hi < length ?a" "Suc k \<le> hi" using Suc.prems(1) lt by simp_all
    from Suc.hyps(1) [OF d this mx, where log = "log @ [?m]"]
    obtain a' ms where r: "bubble_loop (?a, log @ [?m]) (int hi) (int (Suc k)) = Inr (a', (log @ [?m]) @ ms)"
      "length a' = length ?a" "mset a' = mset ?a"
      "\<forall>m. hi < m \<and> m < length ?a \<longrightarrow> a' ! m = ?a ! m"
      "\<forall>m\<le>hi. a' ! m \<le> a' ! hi"
      "\<forall>b :: 'h bin list. map value b = ?a \<longrightarrow>
         (\<exists>b'. bubbleSortAnimation b (rev ms) = Inr b' \<and> map value b' = a')"
      by blast
    have "bubble_loop (a, log) (int hi) (int k) = Inr (a', log @ (?m # ms))"
      using r(1) True bubble_loop_step [OF lt Suc.prems(1)] by simp
    moreover have "mset a' = mset a"
      using r(3) kl by (simp add: mset_swap)
    moreover have "\<forall>m. hi < m \<and> m < length a \<longrightarrow> a' ! m = a ! m"
      using r(4) lt by simp
    moreover have "\<exists>b'. bubbleSortAnimation b (rev (?m # ms)) = Inr b' \<and> map value b' = a'"
      if b: "map value b = a" for b :: "'h bin list"
    proof -
      let ?b = "b[k := b ! Suc k, Suc k := b ! k]"
      have lb: "length b = length a" using b by auto
      have sw: "bubbleSortAnimation b (rev [?m]) = Inr ?b"
        using swap_nat [of k b "Suc k"] kl lb by (simp only: bubbleSortAnimation_single)
      have "map value ?b = (map value b)[k := map value b ! Suc k, Suc k := map value b ! k]"
        using kl lb by (simp add: map_update)
      then have "map value ?b = ?a" by (simp only: b)
      with r(6) obtain b' where "bubbleSortAnimation ?b (rev ms) = Inr b'" "map value b' = a'"
        by blast
      then show ?thesis
        using bubbleSortAnimation_rev_append [OF sw, of ms b'] by auto
    qed
    ultimately show ?thesis using r(2,5) by (intro exI conjI) (assumption | simp)+
  next
    case False
    have mx: "\<forall>m\<le>Suc k. a ! m \<le> a ! Suc k"
    proof (intro allI impI)
      fix m assume "m \<le> Suc k"
      then consider "m = Suc k" | "m \<le> k" by linarith
      then show "a ! m \<le> a ! Suc k"
      proof cases
        case 1 then show ?thesis by simp
      next
        case 2
        then have "a ! m \<le> a ! k" using Suc.prems(3) by simp
        then show ?thesis using False by simp
      qed
    qed
    have "Suc k \<le> hi" using lt by simp
    from Suc.hyps(1) [OF d Suc.prems(1) this mx, where log = log]
    obtain a' ms where r: "bubble_loop (a, log) (int hi) (int (Suc k)) = Inr (a', log @ ms)"
      "length a' = length a" "mset a' = mset a"
      "\<forall>m. hi < m \<and> m < length a \<longrightarrow> a' ! m = a ! m"
      "\<forall>m\<le>hi. a' ! m \<le> a' ! hi"
      "\<forall>b :: 'h bin list. map value b = a \<longrightarrow>
         (\<exists>b'. bubbleSortAnimation b (rev ms) = Inr b' \<and> map value b' = a')"
      by blast
    have "bubble_loop (a, log) (int hi) (int k) = Inr (a', log @ ms)"
      using r(1) False bubble_loop_step [OF lt Suc.prems(1)] by simp
    then show ?thesis using r(2-6) by blast
  qed
qed

lemma bubble_correct:
  assumes "i < length a"
  shows "\<exists>a' ms. bubble (a, log) 0 (int i) = Inr (a', log @ ms)
           \<and> length a' = length a \<and> mset a' = mset a
           \<and> (\<forall>m. i < m \<and> m < length a \<longrightarrow> a' ! m = a ! m)
           \<and> (\<forall>m\<le>i. a' ! m \<le> a' ! i)
           \<and> (\<forall>b :: 'h bin list. map value b = a \<longrightarrow>
                 (\<exists>b'. bubbleSortAnimation b (rev ms) = Inr b' \<and> map value b' = a'))"
  using bubble_loop_correct [of i a 0 log, where ?'h = 'h] assms by (simp add: bubble_def)

lemma take_mset_of_drop_eq:
  assumes "mset a' = mset a" "drop n a' = drop n a"
  shows "mset (take n a') = mset (take n a)"
proof -
  have "mset (take n a') + mset (drop n a') = mset (take n a) + mset (drop n a)"
    using assms(1) by (simp flip: mset_append)
  then show ?thesis using assms(2) by simp
qed

lemma pass_result:
  assumes "i < length a" "length a' = length a" "mset a' = mset a"
      and "\<forall>m. i < m \<and> m < length a \<longrightarrow> a' ! m = a ! m"
      and "\<forall>m\<le>i. a' ! m \<le> a' ! i"
  shows "drop (Suc i) a' = drop (Suc i) a"
    and "mset (take (Suc i) a') = mset (take (Suc i) a)"
    and "a' ! i = Max (set (take (Suc i) a))"
proof -
  show d: "drop (Suc i) a' = drop (Suc i) a"
    using assms(2,4) by (intro nth_equalityI) simp_all
  show t: "mset (take (Suc i) a') = mset (take (Suc i) a)"
    using assms(3) d by (rule take_mset_of_drop_eq)
  have s: "set (take (Suc i) a') = set (take (Suc i) a)"
    using t by (rule mset_eq_setD)
  have il: "i < length a'" using assms(1,2) by simp
  have "a' ! i \<in> set (take (Suc i) a')"
    using il by (auto simp: in_set_conv_nth intro!: exI [of _ i])
  moreover have "x \<le> a' ! i" if "x \<in> set (take (Suc i) a')" for x
  proof -
    from that obtain m where "m < Suc i" "x = a' ! m"
      by (auto simp: in_set_conv_nth)
    then show ?thesis using assms(5) by simp
  qed
  ultimately have "Max (set (take (Suc i) a')) = a' ! i"
    by (intro Max_eqI) simp_all
  then show "a' ! i = Max (set (take (Suc i) a))" using s by simp
qed

lemma pass_places_suffix:
  assumes "i < length a" "length a' = length a" "mset a' = mset a"
      and "\<forall>m. i < m \<and> m < length a \<longrightarrow> a' ! m = a ! m"
      and "\<forall>m\<le>i. a' ! m \<le> a' ! i"
      and "suffix_placed a (Suc i)"
  shows "suffix_placed a' i"
proof -
  note r = pass_result [OF assms(1-5)]
  have s: "set (take (Suc i) a') = set (take (Suc i) a)"
    using r(2) by (rule mset_eq_setD)
  have il: "i < length a'" using assms(1,2) by simp
  have d: "drop i a' = a' ! i # drop (Suc i) a"
    using il r(1) by (simp flip: Cons_nth_drop_Suc)
  have "a' ! i \<in> set (take (Suc i) a')"
    using il by (auto simp: in_set_conv_nth intro!: exI [of _ i])
  then have mem: "a' ! i \<in> set (take (Suc i) a)"
    using s by simp
  have le: "\<forall>x\<in>set (take (Suc i) a). \<forall>y\<in>set (drop (Suc i) a). x \<le> y"
    and so: "sorted (drop (Suc i) a)"
    using assms(6) by (simp_all add: suffix_placed_def)
  have "sorted (drop i a')"
    using d mem le so by simp
  moreover have "x \<le> y" if "x \<in> set (take i a')" "y \<in> set (drop i a')" for x y
  proof -
    from that(1) obtain m where m: "m < i" "x = a' ! m"
      by (auto simp: in_set_conv_nth)
    then have "x \<in> set (take (Suc i) a')"
      using il by (auto simp: in_set_conv_nth intro!: exI [of _ m])
    then have xin: "x \<in> set (take (Suc i) a)" using s by simp
    from that(2) d consider "y = a' ! i" | "y \<in> set (drop (Suc i) a)" by auto
    then show ?thesis
    proof cases
      case 1 then show ?thesis using m assms(5) by simp
    next
      case 2 then show ?thesis using xin le by blast
    qed
  qed
  ultimately show ?thesis by (simp add: suffix_placed_def)
qed

lemma bubble_passes_correct:
  assumes "i < length a" "j \<le> Suc i" "suffix_placed a (Suc i)"
  shows "\<exists>a' ms. bubble_passes (a, log) (map int (rev [j..<Suc i])) = Inr (a', log @ ms)
           \<and> length a' = length a \<and> mset a' = mset a \<and> suffix_placed a' j
           \<and> (\<forall>b :: 'h bin list. map value b = a \<longrightarrow>
                 (\<exists>b'. bubbleSortAnimation b (rev ms) = Inr b' \<and> map value b' = a'))"
  using assms
proof (induction i arbitrary: a log)
  case 0
  show ?case
  proof (cases "j = 0")
    case True
    from bubble_correct [OF "0.prems"(1), where ?'h = 'h and log = log]
    obtain a' ms where r: "bubble (a, log) 0 (int 0) = Inr (a', log @ ms)"
      "length a' = length a" "mset a' = mset a"
      "\<forall>m. 0 < m \<and> m < length a \<longrightarrow> a' ! m = a ! m" "\<forall>m\<le>0. a' ! m \<le> a' ! 0"
      "\<forall>b :: 'h bin list. map value b = a \<longrightarrow>
         (\<exists>b'. bubbleSortAnimation b (rev ms) = Inr b' \<and> map value b' = a')"
      by blast
    have sp: "suffix_placed a' j"
      using pass_places_suffix [OF "0.prems"(1) r(2-5)] "0.prems"(3) True by simp
    have res: "bubble_passes (a, log) (map int (rev [j..<Suc 0])) = Inr (a', log @ ms)"
      using r(1) True by simp
    show ?thesis
    proof (intro exI conjI)
      show "bubble_passes (a, log) (map int (rev [j..<Suc 0])) = Inr (a', log @ ms)" by fact
    qed (fact r(2) r(3) sp r(6))+
  next
    case False
    then have j: "j = Suc 0" using "0.prems"(2) by simp
    show ?thesis
    proof (intro exI conjI)
      show "bubble_passes (a, log) (map int (rev [j..<Suc 0])) = Inr (a, log @ [])"
        using j by simp
      show "suffix_placed a j" using "0.prems"(3) j by simp
      show "\<forall>b :: 'h bin list. map value b = a \<longrightarrow>
         (\<exists>b'. bubbleSortAnimation b (rev []) = Inr b' \<and> map value b' = a)"
        by (simp add: bubbleSortAnimation_Nil)
    qed simp_all
  qed
next
  case (Suc i)
  show ?case
  proof (cases "j = Suc (Suc i)")
    case True
    show ?thesis
    proof (intro exI conjI)
      show "bubble_passes (a, log) (map int (rev [j..<Suc (Suc i)])) = Inr (a, log @ [])"
        using True by simp
      show "suffix_placed a j" using Suc.prems(3) True by simp
      show "\<forall>b :: 'h bin list. map value b = a \<longrightarrow>
         (\<exists>b'. bubbleSortAnimation b (rev []) = Inr b' \<and> map value b' = a)"
        by (simp add: bubbleSortAnimation_Nil)
    qed simp_all
  next
    case False
    then have j: "j \<le> Suc i" using Suc.prems(2) by simp
    from bubble_correct [OF Suc.prems(1), where ?'h = 'h and log = log]
    obtain a1 ms1 where r: "bubble (a, log) 0 (int (Suc i)) = Inr (a1, log @ ms1)"
      "length a1 = length a" "mset a1 = mset a"
      "\<forall>m. Suc i < m \<and> m < length a \<longrightarrow> a1 ! m = a ! m" "\<forall>m\<le>Suc i. a1 ! m \<le> a1 ! Suc i"
      "\<forall>b :: 'h bin list. map value b = a \<longrightarrow>
         (\<exists>b'. bubbleSortAnimation b (rev ms1) = Inr b' \<and> map value b' = a1)"
      by blast
    have sp: "suffix_placed a1 (Suc i)"
      using pass_places_suffix [OF Suc.prems(1) r(2-5)] Suc.prems(3) by simp
    have "i < length a1" using Suc.prems(1) r(2) by simp
    from Suc.IH [OF this j sp, where log = "log @ ms1"]
    obtain a' ms where q: "bubble_passes (a1, log @ ms1) (map int (rev [j..<Suc i])) = Inr (a', (log @ ms1) @ ms)"
      "length a' = length a1" "mset a' = mset a1" "suffix_placed a' j"
      "\<forall>b :: 'h bin list. map value b = a1 \<longrightarrow>
         (\<exists>b'. bubbleSortAnimation b (rev ms) = Inr b' \<and> map value b' = a')"
      by blast
    have "rev [j..<Suc (Suc i)] = Suc i # rev [j..<Suc i]"
      using j by simp
    then have res: "bubble_passes (a, log) (map int (rev [j..<Suc (Suc i)])) = Inr (a', log @ (ms1 @ ms))"
      using r(1) q(1) by simp
    have play: "\<forall>b :: 'h bin list. map value b = a \<longrightarrow>
         (\<exists>b'. bubbleSortAnimation b (rev (ms1 @ ms)) = Inr b' \<and> map value b' = a')"
    proof (intro allI impI)
      fix b :: "'h bin list" assume "map value b = a"
      with r(6) obtain b1 where b1: "bubbleSortAnimation b (rev ms1) = Inr b1" "map value b1 = a1"
        by blast
      with q(5) obtain b' where b': "bubbleSortAnimation b1 (rev ms) = Inr b'" "map value b' = a'"
        by blast
      have "bubbleSortAnimation b (rev (ms1 @ ms)) = Inr b'"
        using b1(1) b'(1) by (rule bubbleSortAnimation_rev_append)
      then show "\<exists>b'. bubbleSortAnimation b (rev (ms1 @ ms)) = Inr b' \<and> map value b' = a'"
        using b'(2) by blast
    qed
    have len: "length a' = length a" and ms: "mset a' = mset a"
      using q(2,3) r(2,3) by simp_all
    show ?thesis
    proof (intro exI conjI)
      show "bubble_passes (a, log) (map int (rev [j..<Suc (Suc i)])) = Inr (a', log @ (ms1 @ ms))"
        by fact
    qed (fact len ms q(4) play)+
  qed
qed

lemma bubbleSort_loop_passes:
  "bubbleSort_loop s (int i) = bubble_passes s (map int (rev [1..<Suc i]))"
proof (induction i arbitrary: s)
  case 0
  show ?case by (simp add: bubbleSort_loop.simps)
next
  case (Suc i)
  have "rev [1..<Suc (Suc i)] = Suc i # rev [1..<Suc i]" by simp
  moreover have "bubbleSort_loop s (int (Suc i)) =
    (case bubble s 0 (int (Suc i)) of Inl e \<Rightarrow> Inl e | Inr s' \<Rightarrow> bubbleSort_loop s' (int i))"
    by (subst bubbleSort_loop.simps) (simp cong: sum.case_cong)
  ultimately show ?case
    by (simp add: Suc.IH del: upt_Suc cong: sum.case_cong)
qed

lemma bubbleSort_passes:
  "bubbleSort (a, log) = bubble_passes (a, log) (map int (rev [1..<length a]))"
proof (cases a)
  case Nil
  then show ?thesis by (simp add: bubbleSort_def bubbleSort_loop.simps)
next
  case (Cons x xs)
  then have "int (length a) - 1 = int (length xs)" by simp
  then show ?thesis
    using bubbleSort_loop_passes [of "(a, log)" "length xs"] Cons by (simp add: bubbleSort_def)
qed

lemma suffix_placed_sorted: "suffix_placed a (Suc 0) \<Longrightarrow> sorted a"
  by (cases a) (auto simp: suffix_placed_def)

lemma bubbleSort_correct:
  fixes b :: "'h bin list"
  assumes "map value b = a"
  shows "\<exists>ms b'. bubbleSort (a, []) = Inr (sort a, ms)
           \<and> bubbleSortAnimation b (rev ms) = Inr b' \<and> map value b' = sort a"
proof (cases a)
  case Nil
  then show ?thesis
    using assms by (simp add: bubbleSort_passes bubbleSortAnimation_Nil)
next
  case (Cons x xs)
  then have l: "length xs < length a" by simp
  have "suffix_placed a (Suc (length xs))" using Cons by (simp add: suffix_placed_def)
  moreover have "1 \<le> Suc (length xs)" by simp
  ultimately have "\<exists>a' ms. bubble_passes (a, []) (map int (rev [1..<Suc (length xs)])) = Inr (a', [] @ ms)
           \<and> length a' = length a \<and> mset a' = mset a \<and> suffix_placed a' 1
           \<and> (\<forall>b :: 'h bin list. map value b = a \<longrightarrow>
                 (\<exists>b'. bubbleSortAnimation b (rev ms) = Inr b' \<and> map value b' = a'))"
    using l by (intro bubble_passes_correct)
  then obtain a' ms where r: "bubble_passes (a, []) (map int (rev [1..<Suc (length xs)])) = Inr (a', ms)"
      "mset a' = mset a" "suffix_placed a' 1"
      "\<forall>b :: 'h bin list. map value b = a \<longrightarrow>
         (\<exists>b'. bubbleSortAnimation b (rev ms) = Inr b' \<and> map value b' = a')"
    by (elim exE conjE) simp
  have "sorted a'" using r(3) by (simp add: suffix_placed_sorted)
  then have "a' = sort a" using r(2) by (simp add: properties_for_sort)
  moreover have "bubbleSort (a, []) = Inr (a', ms)"
    using r(1) Cons by (simp add: bubbleSort_passes)
  ultimately show ?thesis using r(4) assms by blast
qed

text \<open>
  Claim C8. For an array \<open>a\<close> of length \<open>N\<close> and an outer index \<open>1 \<le> i < N\<close>:
  the pass \<open>bubble(a, 0, i)\<close> returns and leaves the maximum of \<open>a[0..i]\<close> at index
  \<open>i\<close>; \<open>bubbleSort\<close> is the sequence of the passes with outer indices \<open>N - 1\<close> down to
  \<open>1\<close>; and after the passes \<open>N - 1\<close> down to \<open>i\<close> the array is a permutation of \<open>a\<close>
  whose element at \<open>i\<close> is the maximum of the first \<open>i + 1\<close> elements before that pass,
  whose suffix from \<open>i\<close> is sorted, and no element before \<open>i\<close> exceeds an element of that
  suffix (the suffix holds the \<open>N - i\<close> largest elements in sorted order).
\<close>

theorem bubble_pass_places_maximum:
  assumes "1 \<le> i" "i < length a"
  shows "(\<exists>a' log'. bubble (a, log) 0 (int i) = Inr (a', log')
            \<and> a' ! i = Max (set (take (Suc i) a)))
       \<and> bubbleSort (a, log) = bubble_passes (a, log) (map int (rev [1..<length a]))
       \<and> (\<exists>a1 log1 a2 log2.
            bubble_passes (a, log) (map int (rev [Suc i..<length a])) = Inr (a1, log1)
          \<and> bubble (a1, log1) 0 (int i) = Inr (a2, log2)
          \<and> bubble_passes (a, log) (map int (rev [i..<length a])) = Inr (a2, log2)
          \<and> a2 ! i = Max (set (take (Suc i) a1))
          \<and> mset a2 = mset a \<and> length a2 = length a
          \<and> sorted (drop i a2)
          \<and> (\<forall>x\<in>set (take i a2). \<forall>y\<in>set (drop i a2). x \<le> y))"
proof (intro conjI)
  from bubble_correct [OF assms(2), where ?'h = unit and log = log]
  obtain a' ms where r: "bubble (a, log) 0 (int i) = Inr (a', log @ ms)"
      "length a' = length a" "mset a' = mset a"
      "\<forall>m. i < m \<and> m < length a \<longrightarrow> a' ! m = a ! m" "\<forall>m\<le>i. a' ! m \<le> a' ! i"
    by blast
  show "\<exists>a' log'. bubble (a, log) 0 (int i) = Inr (a', log') \<and> a' ! i = Max (set (take (Suc i) a))"
    using r(1) pass_result(3) [OF assms(2) r(2-5)] by blast
next
  show "bubbleSort (a, log) = bubble_passes (a, log) (map int (rev [1..<length a]))"
    by (rule bubbleSort_passes)
next
  obtain n where n: "length a = Suc n" using assms(2) by (cases a) auto
  have sp: "suffix_placed a (Suc n)" using n by (simp add: suffix_placed_def)
  have "n < length a" using n by simp
  moreover have "Suc i \<le> Suc n" using assms(2) n by simp
  ultimately have "\<exists>a' ms. bubble_passes (a, log) (map int (rev [Suc i..<Suc n])) = Inr (a', log @ ms)
           \<and> length a' = length a \<and> mset a' = mset a \<and> suffix_placed a' (Suc i)
           \<and> (\<forall>b :: unit bin list. map value b = a \<longrightarrow>
                 (\<exists>b'. bubbleSortAnimation b (rev ms) = Inr b' \<and> map value b' = a'))"
    using sp by (intro bubble_passes_correct)
  then obtain a1 ms1 where p: "bubble_passes (a, log) (map int (rev [Suc i..<Suc n])) = Inr (a1, log @ ms1)"
      "length a1 = length a" "mset a1 = mset a" "suffix_placed a1 (Suc i)"
    by blast
  have il: "i < length a1" using assms(2) p(2) by simp
  from bubble_correct [OF il, where ?'h = unit and log = "log @ ms1"]
  obtain a2 ms2 where r: "bubble (a1, log @ ms1) 0 (int i) = Inr (a2, (log @ ms1) @ ms2)"
      "length a2 = length a1" "mset a2 = mset a1"
      "\<forall>m. i < m \<and> m < length a1 \<longrightarrow> a2 ! m = a1 ! m" "\<forall>m\<le>i. a2 ! m \<le> a2 ! i"
    by blast
  have sp2: "suffix_placed a2 i"
    using pass_places_suffix [OF il r(2-5) p(4)] .
  have "rev [i..<Suc n] = rev [Suc i..<Suc n] @ [i]"
    using assms(2) n by (simp add: upt_conv_Cons)
  moreover have "bubble_passes s (xs @ [k]) =
      (case bubble_passes s xs of Inl e \<Rightarrow> Inl e | Inr s' \<Rightarrow> bubble s' 0 k)" for s xs k
    by (induction xs arbitrary: s) (auto split: sum.splits)
  ultimately have both: "bubble_passes (a, log) (map int (rev [i..<length a])) = Inr (a2, (log @ ms1) @ ms2)"
    using p(1) r(1) n by simp
  have before: "bubble_passes (a, log) (map int (rev [Suc i..<length a])) = Inr (a1, log @ ms1)"
    using p(1) n by simp
  have mx: "a2 ! i = Max (set (take (Suc i) a1))"
    using pass_result(3) [OF il r(2-5)] .
  have perm: "mset a2 = mset a" "length a2 = length a"
    using p(2,3) r(2,3) by simp_all
  have srt: "sorted (drop i a2)" "\<forall>x\<in>set (take i a2). \<forall>y\<in>set (drop i a2). x \<le> y"
    using sp2 by (simp_all add: suffix_placed_def)
  show "\<exists>a1 log1 a2 log2.
            bubble_passes (a, log) (map int (rev [Suc i..<length a])) = Inr (a1, log1)
          \<and> bubble (a1, log1) 0 (int i) = Inr (a2, log2)
          \<and> bubble_passes (a, log) (map int (rev [i..<length a])) = Inr (a2, log2)
          \<and> a2 ! i = Max (set (take (Suc i) a1))
          \<and> mset a2 = mset a \<and> length a2 = length a
          \<and> sorted (drop i a2)
          \<and> (\<forall>x\<in>set (take i a2). \<forall>y\<in>set (drop i a2). x \<le> y)"
    using before r(1) both mx perm srt by blast
qed

theorem bubble_pass_places_maximum_witness:
  "(\<exists>a' log'. bubble ([3, 1, 2], []) 0 (int 1) = Inr (a', log')
            \<and> a' ! 1 = Max (set (take (Suc 1) [3, 1, 2])))
       \<and> bubbleSort ([3, 1, 2], []) = bubble_passes ([3, 1, 2], []) (map int (rev [1..<length [3, 1, 2 :: int]]))
       \<and> (\<exists>a1 log1 a2 log2.
            bubble_passes ([3, 1, 2], []) (map int (rev [Suc 1..<length [3, 1, 2 :: int]])) = Inr (a1, log1)
          \<and> bubble (a1, log1) 0 (int 1) = Inr (a2, log2)
          \<and> bubble_passes ([3, 1, 2], []) (map int (rev [1..<length [3, 1, 2 :: int]])) = Inr (a2, log2)
          \<and> a2 ! 1 = Max (set (take (Suc 1) a1))
          \<and> mset a2 = mset [3, 1, 2] \<and> length a2 = length [3, 1, 2 :: int]
          \<and> sorted (drop 1 a2)
          \<and> (\<forall>x\<in>set (take 1 a2). \<forall>y\<in>set (drop 1 a2). x \<le> y))"
  by (rule bubble_pass_places_maximum) simp_all


section \<open>Counting sort: the counts, the slots, the replay\<close>

lemma countingSort_tally_done:
  "\<not> i < int (length a) \<Longrightarrow> countingSort_tally a cs i = Inr cs"
  by (simp add: countingSort_tally.simps)

lemma countingSort_tally_step:
  assumes "i < length a" "0 \<le> a ! i" "a ! i < int (length cs)"
  shows "countingSort_tally a cs (int i) =
         countingSort_tally a (cs[nat (a ! i) := cs ! nat (a ! i) + 1]) (int (Suc i))"
proof -
  have "read a (int i) = Inr (a ! i)" "read cs (a ! i) = Inr (cs ! nat (a ! i))"
       "store cs (a ! i) (cs ! nat (a ! i) + 1) = Inr (cs[nat (a ! i) := cs ! nat (a ! i) + 1])"
    using assms by (simp_all add: read_def store_def in_range_def)
  then show ?thesis
    using assms by (simp add: countingSort_tally.simps [of a cs "int i"] add.commute)
qed

lemma countingSort_tally_correct:
  assumes "\<forall>x\<in>set a. 0 \<le> x \<and> x < int (length cs)" "i \<le> length a"
  shows "\<exists>cs'. countingSort_tally a cs (int i) = Inr cs' \<and> length cs' = length cs
           \<and> (\<forall>k<length cs. cs' ! k = cs ! k + int (length (filter (\<lambda>x. x = int k) (drop i a))))"
  using assms
proof (induction "length a - i" arbitrary: i cs)
  case 0
  then have "countingSort_tally a cs (int i) = Inr cs"
    by (simp add: countingSort_tally_done)
  then show ?case using 0 by simp
next
  case (Suc d)
  then have lt: "i < length a" and d: "d = length a - Suc i" by simp_all
  let ?key = "a ! i"
  let ?cs = "cs[nat ?key := cs ! nat ?key + 1]"
  have key: "0 \<le> ?key" "?key < int (length cs)"
    using Suc.prems(1) lt by simp_all
  have pre: "\<forall>x\<in>set a. 0 \<le> x \<and> x < int (length ?cs)"
    using Suc.prems(1) by simp
  have "Suc i \<le> length a" using lt by simp
  from Suc.hyps(1) [OF d pre this]
  obtain cs' where r: "countingSort_tally a ?cs (int (Suc i)) = Inr cs'" "length cs' = length ?cs"
    "\<forall>k<length ?cs. cs' ! k = ?cs ! k + int (length (filter (\<lambda>x. x = int k) (drop (Suc i) a)))"
    by blast
  have dr: "drop i a = ?key # drop (Suc i) a"
    using lt by (simp add: Cons_nth_drop_Suc)
  have "cs' ! k = cs ! k + int (length (filter (\<lambda>x. x = int k) (drop i a)))"
    if "k < length cs" for k
  proof (cases "int k = ?key")
    case True
    then have "nat ?key = k" by simp
    then show ?thesis using r(3) that True dr by simp
  next
    case False
    then have "nat ?key \<noteq> k" using key by auto
    then show ?thesis using r(3) that False dr by auto
  qed
  moreover have "countingSort_tally a cs (int i) = Inr cs'"
    using r(1) countingSort_tally_step [OF lt key] by simp
  ultimately show ?case using r(2) by simp
qed

lemma countingSort_accumulate_done:
  "\<not> i < int (length cs) - 1 \<Longrightarrow> countingSort_accumulate cs i = Inr cs"
  by (simp add: countingSort_accumulate.simps)

lemma countingSort_accumulate_step:
  assumes "Suc i < length cs"
  shows "countingSort_accumulate cs (int i) =
         countingSort_accumulate (cs[Suc i := cs ! Suc i + cs ! i]) (int (Suc i))"
proof -
  have "read cs (int i) = Inr (cs ! i)" "read cs (int i + 1) = Inr (cs ! Suc i)"
       "store cs (int i + 1) (cs ! Suc i + cs ! i) = Inr (cs[Suc i := cs ! Suc i + cs ! i])"
    using assms by (simp_all add: read_def store_def in_range_def nat_add_distrib)
  then show ?thesis
    using assms by (simp add: countingSort_accumulate.simps [of cs "int i"] add.commute)
qed

lemma countingSort_accumulate_correct:
  assumes "i < length cs"
  shows "\<exists>cs'. countingSort_accumulate cs (int i) = Inr cs' \<and> length cs' = length cs
           \<and> (\<forall>k<length cs. cs' ! k = (if k < i then cs ! k else (\<Sum>j = i..k. cs ! j)))"
  using assms
proof (induction "length cs - i" arbitrary: i cs)
  case 0
  then show ?case by simp
next
  case (Suc d)
  show ?case
  proof (cases "Suc i < length cs")
    case False
    then have last: "Suc i = length cs" using Suc.prems by simp
    have "countingSort_accumulate cs (int i) = Inr cs"
      using last by (intro countingSort_accumulate_done) auto
    moreover have "cs ! k = (if k < i then cs ! k else (\<Sum>j = i..k. cs ! j))" if "k < length cs" for k
    proof (cases "k < i")
      case True then show ?thesis by simp
    next
      case False
      then have "k = i" using that last by simp
      then show ?thesis by simp
    qed
    ultimately show ?thesis by simp
  next
    case True
    let ?cs = "cs[Suc i := cs ! Suc i + cs ! i]"
    have d: "d = length ?cs - Suc i" using Suc.hyps(2) by simp
    have "Suc i < length ?cs" using True by simp
    from Suc.hyps(1) [OF d this]
    obtain cs' where r: "countingSort_accumulate ?cs (int (Suc i)) = Inr cs'" "length cs' = length ?cs"
      "\<forall>k<length ?cs. cs' ! k = (if k < Suc i then ?cs ! k else (\<Sum>j = Suc i..k. ?cs ! j))"
      by blast
    have "cs' ! k = (if k < i then cs ! k else (\<Sum>j = i..k. cs ! j))" if k: "k < length cs" for k
    proof -
      consider "k < i" | "k = i" | "Suc i \<le> k" by linarith
      then show ?thesis
      proof cases
        case 1 then show ?thesis using r(3) k by simp
      next
        case 2 then show ?thesis using r(3) k by simp
      next
        case 3
        have "(\<Sum>j = Suc i..k. ?cs ! j) = ?cs ! Suc i + (\<Sum>j = Suc (Suc i)..k. ?cs ! j)"
          using 3 by (simp add: sum.atLeast_Suc_atMost)
        also have "(\<Sum>j = Suc (Suc i)..k. ?cs ! j) = (\<Sum>j = Suc (Suc i)..k. cs ! j)"
          by (intro sum.cong) auto
        also have "?cs ! Suc i = cs ! i + cs ! Suc i" using True by simp
        finally have "(\<Sum>j = Suc i..k. ?cs ! j) = (\<Sum>j = i..k. cs ! j)"
          using 3 by (simp add: sum.atLeast_Suc_atMost)
        then show ?thesis using r(3) k 3 by simp
      qed
    qed
    moreover have "countingSort_accumulate cs (int i) = Inr cs'"
      using r(1) countingSort_accumulate_step [OF True] by simp
    ultimately show ?thesis using r(2) by simp
  qed
qed

lemma length_filter_le_Suc:
  "length (filter (\<lambda>x. x \<le> 1 + v) a) =
   length (filter (\<lambda>x. x \<le> v) a) + length (filter (\<lambda>x. x = 1 + (v::int)) a)"
  by (induction a) auto

lemma length_filter_le_0:
  "\<forall>x\<in>set a. (0::int) \<le> x \<Longrightarrow>
   length (filter (\<lambda>x. x \<le> 0) a) = length (filter (\<lambda>x. x = 0) a)"
  by (induction a) auto

lemma sum_occurrences:
  assumes "\<forall>x\<in>set a. (0::int) \<le> x"
  shows "(\<Sum>j = 0..k. int (length (filter (\<lambda>x. x = int j) a))) =
         int (length (filter (\<lambda>x. x \<le> int k) a))"
proof (induction k)
  case 0
  show ?case using length_filter_le_0 [OF assms] by simp
next
  case (Suc k)
  then show ?case by (simp add: length_filter_le_Suc)
qed

lemma length_filter_le_split:
  "length (filter (\<lambda>x. x \<le> v) a) =
   length (filter (\<lambda>x. x < v) a) + length (filter (\<lambda>x. x = (v::int)) a)"
  by (induction a) auto


lemma countingSort_place_done: "countingSort_place a s (- 1) = Inr s"
  by (cases s) (simp add: countingSort_place.simps)

lemma countingSort_place_step:
  assumes "i < length a" "0 \<le> a ! i" "a ! i < int (length cs)"
      and "cs ! nat (a ! i) = int p + 1" "p < length aux"
  shows "countingSort_place a (cs, aux, log) (int i) =
         countingSort_place a
           (cs[nat (a ! i) := int p], aux[p := a ! i], log @ [IndexNewValue (Index (int p)) (a ! i)])
           (int i - 1)"
proof -
  have "read a (int i) = Inr (a ! i)" "read cs (a ! i) = Inr (int p + 1)"
       "store cs (a ! i) (int p) = Inr (cs[nat (a ! i) := int p])"
       "store aux (int p) (a ! i) = Inr (aux[p := a ! i])"
    using assms by (simp_all add: read_def store_def in_range_def)
  then show ?thesis
    using assms by (simp add: countingSort_place.simps [of a cs aux log "int i"] Let_def)
qed

lemma length_filter_mono:
  "(\<And>x. x \<in> set xs \<Longrightarrow> P x \<Longrightarrow> Q x) \<Longrightarrow> length (filter P xs) \<le> length (filter Q xs)"
  by (induction xs) auto

lemma stable_position_below:
  assumes "i < length a"
  shows "stable_position a i < length (filter (\<lambda>x. x \<le> a ! i) a)"
proof -
  have "a = take i a @ a ! i # drop (Suc i) a"
    using assms by (simp add: id_take_nth_drop)
  then have "filter (\<lambda>x. x = a ! i) a =
             filter (\<lambda>x. x = a ! i) (take i a) @ a ! i # filter (\<lambda>x. x = a ! i) (drop (Suc i) a)"
    by (metis (mono_tags, lifting) filter.simps(2) filter_append)
  then have "length (filter (\<lambda>x. x = a ! i) (take i a)) < length (filter (\<lambda>x. x = a ! i) a)"
    by simp
  then show ?thesis
    by (simp add: stable_position_def length_filter_le_split [of "a ! i" a])
qed

lemma stable_position_less:
  assumes "i < length a"
  shows "stable_position a i < length a"
  by (rule order.strict_trans2 [OF stable_position_below [OF assms] length_filter_le])

lemma stable_position_key_less:
  assumes "i < length a" "j < length a" "a ! i < a ! j"
  shows "stable_position a i < stable_position a j"
proof -
  have "stable_position a i < length (filter (\<lambda>x. x \<le> a ! i) a)"
    using assms(1) by (rule stable_position_below)
  also have "\<dots> \<le> length (filter (\<lambda>x. x < a ! j) a)"
    using assms(3) by (intro length_filter_mono) simp
  also have "\<dots> \<le> stable_position a j"
    by (simp add: stable_position_def)
  finally show ?thesis .
qed

lemma stable_position_stable:
  assumes "i < j" "j < length a" "a ! i = a ! j"
  shows "stable_position a i < stable_position a j"
proof -
  have "take j a = take i (take j a) @ take j a ! i # drop (Suc i) (take j a)"
    using assms(1,2) by (intro id_take_nth_drop) simp
  then have "take j a = take i a @ a ! i # drop (Suc i) (take j a)"
    using assms(1) by (simp add: min_def)
  then have "filter (\<lambda>x. x = a ! i) (take j a) =
     filter (\<lambda>x. x = a ! i) (take i a) @ a ! i # filter (\<lambda>x. x = a ! i) (drop (Suc i) (take j a))"
    by (metis (mono_tags, lifting) filter.simps(2) filter_append)
  then have "length (filter (\<lambda>x. x = a ! i) (take i a)) < length (filter (\<lambda>x. x = a ! i) (take j a))"
    by simp
  then show ?thesis
    using assms(3) by (simp add: stable_position_def)
qed

lemma stable_position_inj:
  assumes "i < length a" "j < length a" "stable_position a i = stable_position a j"
  shows "i = j"
proof (rule ccontr)
  assume ne: "i \<noteq> j"
  consider "a ! i < a ! j" | "a ! j < a ! i" | "a ! i = a ! j" "i < j" | "a ! i = a ! j" "j < i"
    using ne by linarith
  then show False
  proof cases
    case 1 then show ?thesis using stable_position_key_less [OF assms(1,2)] assms(3) by simp
  next
    case 2 then show ?thesis using stable_position_key_less [OF assms(2,1)] assms(3) by simp
  next
    case 3 then show ?thesis using stable_position_stable [of i j a] assms by simp
  next
    case 4 then show ?thesis using stable_position_stable [of j i a] assms by simp
  qed
qed

lemma stable_position_mono:
  assumes "i < length a" "j < length a" "stable_position a i \<le> stable_position a j"
  shows "a ! i \<le> a ! j"
proof (rule ccontr)
  assume "\<not> a ! i \<le> a ! j"
  then have "a ! j < a ! i" by simp
  then show False using stable_position_key_less [OF assms(2,1)] assms(3) by simp
qed

lemma stable_position_onto:
  assumes "p < length a"
  shows "\<exists>i<length a. stable_position a i = p"
proof -
  let ?A = "{0..<length a}"
  have "inj_on (stable_position a) ?A"
    by (auto simp: inj_on_def intro: stable_position_inj)
  moreover have "stable_position a ` ?A \<subseteq> ?A"
    by (auto simp: stable_position_less)
  ultimately have "stable_position a ` ?A = ?A"
    by (intro endo_inj_surj) simp_all
  then have "p \<in> stable_position a ` ?A" using assms by simp
  then show ?thesis by auto
qed

lemma fold_update_other:
  "p \<notin> f ` set js \<Longrightarrow> fold (\<lambda>j xs. xs[f j := g j]) js xs ! p = xs ! p"
  by (induction js arbitrary: xs) auto

lemma length_fold_update [simp]:
  "length (fold (\<lambda>j xs. xs[f j := g j]) js xs) = length xs"
  by (induction js arbitrary: xs) auto

lemma fold_update_nth:
  "distinct (map f js) \<Longrightarrow> j \<in> set js \<Longrightarrow> f j < length xs \<Longrightarrow>
   fold (\<lambda>j xs. xs[f j := g j]) js xs ! f j = g j"
proof (induction js arbitrary: xs)
  case Nil
  then show ?case by simp
next
  case (Cons k js)
  show ?case
  proof (cases "j = k")
    case True
    then have "f j \<notin> f ` set js" using Cons.prems(1) by simp
    then show ?thesis using True Cons.prems(3) by (simp add: fold_update_other)
  next
    case False
    then show ?thesis using Cons by simp
  qed
qed

lemma fold_update_agree:
  "length xs = length ys \<Longrightarrow> \<forall>p<length xs. p \<in> f ` set js \<or> xs ! p = ys ! p \<Longrightarrow>
   fold (\<lambda>j xs. xs[f j := g j]) js xs = fold (\<lambda>j xs. xs[f j := g j]) js ys"
proof (induction js arbitrary: xs ys)
  case Nil
  then show ?case by (auto intro: nth_equalityI)
next
  case (Cons k js)
  have "\<forall>p<length (xs[f k := g k]). p \<in> f ` set js \<or> xs[f k := g k] ! p = ys[f k := g k] ! p"
  proof (intro allI impI)
    fix p assume p: "p < length (xs[f k := g k])"
    show "p \<in> f ` set js \<or> xs[f k := g k] ! p = ys[f k := g k] ! p"
    proof (cases "p = f k")
      case True
      then show ?thesis using p Cons.prems(1) by simp
    next
      case False
      then show ?thesis using p Cons.prems by auto
    qed
  qed
  then show ?case using Cons.IH [of "xs[f k := g k]" "ys[f k := g k]"] Cons.prems(1) by simp
qed

text \<open>
  \<open>xs\<close> after writing, for the input indices \<open>n - 1\<close> down to \<open>0\<close>, the key \<open>a[j]\<close>
  at the slot of \<open>j\<close>; and the moves that record these writes.
\<close>

lemma countingSort_place_correct:
  assumes "\<forall>x\<in>set a. 0 \<le> x \<and> x < int (length cs)" "n \<le> length a" "length aux = length a"
      and "\<forall>k<length cs. cs ! k = int (length (filter (\<lambda>x. x < int k) a))
                               + int (length (filter (\<lambda>x. x = int k) (take n a)))"
  shows "\<exists>cs'. countingSort_place a (cs, aux, log) (int n - 1) =
           Inr (cs', placed a n aux, log @ placements a n)"
  using assms
proof (induction n arbitrary: cs aux log)
  case 0
  then show ?case by (simp add: countingSort_place_done placed_def placements_def)
next
  case (Suc i)
  then have lt: "i < length a" by simp
  let ?key = "a ! i"
  let ?p = "stable_position a i"
  have key: "0 \<le> ?key" "?key < int (length cs)" using Suc.prems(1) lt by simp_all
  then have kl: "nat ?key < length cs" by simp
  have tk: "take (Suc i) a = take i a @ [?key]" using lt by (simp add: take_Suc_conv_app_nth)
  have c: "cs ! nat ?key = int ?p + 1"
    using Suc.prems(4) kl key tk by (simp add: stable_position_def)
  have p: "?p < length aux" using stable_position_less [OF lt] Suc.prems(3) by simp
  let ?cs = "cs[nat ?key := int ?p]"
  let ?aux = "aux[?p := ?key]"
  let ?log = "log @ [IndexNewValue (Index (int ?p)) ?key]"
  have pre: "\<forall>x\<in>set a. 0 \<le> x \<and> x < int (length ?cs)" using Suc.prems(1) by simp
  have inv: "\<forall>k<length ?cs. ?cs ! k = int (length (filter (\<lambda>x. x < int k) a))
                               + int (length (filter (\<lambda>x. x = int k) (take i a)))"
  proof (intro allI impI)
    fix k assume k: "k < length ?cs"
    show "?cs ! k = int (length (filter (\<lambda>x. x < int k) a))
                               + int (length (filter (\<lambda>x. x = int k) (take i a)))"
    proof (cases "k = nat ?key")
      case True
      then have "int k = ?key" using key by simp
      then show ?thesis using True k by (simp add: stable_position_def)
    next
      case False
      then have "?key \<noteq> int k" using key by auto
      then show ?thesis using False k Suc.prems(4) tk by simp
    qed
  qed
  have "i \<le> length a" "length ?aux = length a" using lt Suc.prems(3) by simp_all
  from Suc.IH [OF pre this inv, where log = ?log]
  obtain cs' where r: "countingSort_place a (?cs, ?aux, ?log) (int i - 1) =
           Inr (cs', placed a i ?aux, ?log @ placements a i)"
    by blast
  have "countingSort_place a (cs, aux, log) (int (Suc i) - 1) =
        countingSort_place a (?cs, ?aux, ?log) (int i - 1)"
    using countingSort_place_step [OF lt key c p, of log] by simp
  moreover have "placed a (Suc i) aux = placed a i ?aux"
    by (simp add: placed_def)
  moreover have "log @ placements a (Suc i) = ?log @ placements a i"
    by (simp add: placements_def)
  ultimately show ?case using r by simp
qed

lemma countingSort_copy_correct:
  assumes "length aux = length array" "i \<le> length array"
  shows "countingSort_copy array aux (int i) = Inr (take i array @ drop i aux)"
  using assms
proof (induction "length array - i" arbitrary: i array)
  case 0
  then show ?case by (simp add: countingSort_copy.simps)
next
  case (Suc d)
  then have lt: "i < length array" and d: "d = length (array[i := aux ! i]) - Suc i" by simp_all
  have "read aux (int i) = Inr (aux ! i)" "store array (int i) (aux ! i) = Inr (array[i := aux ! i])"
    using lt Suc.prems(1) by (simp_all add: read_def store_def in_range_def)
  then have "countingSort_copy array aux (int i) = countingSort_copy (array[i := aux ! i]) aux (int (Suc i))"
    using lt Suc.prems(1) by (simp add: countingSort_copy.simps [of array aux "int i"] add.commute)
  also have "\<dots> = Inr (take (Suc i) (array[i := aux ! i]) @ drop (Suc i) aux)"
    using Suc.hyps(1) [OF d] Suc.prems(1) lt by simp
  also have "take (Suc i) (array[i := aux ! i]) @ drop (Suc i) aux = take i array @ drop i aux"
    using lt Suc.prems(1) by (simp add: take_Suc_conv_app_nth Cons_nth_drop_Suc)
  finally show ?case .
qed

lemma countingSort_result:
  assumes "\<forall>x\<in>set a. 0 \<le> x"
  shows "countingSort (a, log) =
         Inr (placed a (length a) (replicate (length a) 0), log @ placements a (length a))"
proof (cases "a = []")
  case True
  then show ?thesis
    by (simp add: countingSort_def countingSort_init_def countingSort_tally_done
        countingSort_accumulate_done countingSort_place_done countingSort_copy.simps
        placed_def placements_def)
next
  case False
  let ?L = "nat (Max (set a) + 1)"
  let ?cs0 = "replicate ?L (0::int)"
  have mx: "\<forall>x\<in>set a. x \<le> Max (set a)" by simp
  have "Max (set a) \<in> set a" using False by (intro Max_in) simp_all
  then have m0: "0 \<le> Max (set a)" using assms by blast
  have pre0: "\<forall>x\<in>set a. 0 \<le> x \<and> x < int (length ?cs0)"
    using assms mx m0 by auto
  from countingSort_tally_correct [OF pre0, of 0]
  obtain cs1 where t: "countingSort_tally a ?cs0 (int 0) = Inr cs1" "length cs1 = length ?cs0"
    "\<forall>k<length ?cs0. cs1 ! k = ?cs0 ! k + int (length (filter (\<lambda>x. x = int k) (drop 0 a)))"
    by auto
  have cs1: "\<forall>k<?L. cs1 ! k = int (length (filter (\<lambda>x. x = int k) a))"
    using t(3) by simp
  have "0 < length cs1" using t(2) m0 by simp
  from countingSort_accumulate_correct [OF this]
  obtain cs2 where u: "countingSort_accumulate cs1 (int 0) = Inr cs2" "length cs2 = length cs1"
    "\<forall>k<length cs1. cs2 ! k = (if k < 0 then cs1 ! k else (\<Sum>j = 0..k. cs1 ! j))"
    by blast
  have cs2: "cs2 ! k = int (length (filter (\<lambda>x. x \<le> int k) a))" if "k < ?L" for k
  proof -
    have "cs2 ! k = (\<Sum>j = 0..k. cs1 ! j)" using u(3) t(2) that by simp
    also have "\<dots> = (\<Sum>j = 0..k. int (length (filter (\<lambda>x. x = int j) a)))"
      using cs1 that by (intro sum.cong) auto
    also have "\<dots> = int (length (filter (\<lambda>x. x \<le> int k) a))"
      using assms by (rule sum_occurrences)
    finally show ?thesis .
  qed
  have pre2: "\<forall>x\<in>set a. 0 \<le> x \<and> x < int (length cs2)"
    using pre0 u(2) t(2) by simp
  have inv: "\<forall>k<length cs2. cs2 ! k = int (length (filter (\<lambda>x. x < int k) a))
                               + int (length (filter (\<lambda>x. x = int k) (take (length a) a)))"
    using cs2 u(2) t(2) by (simp add: length_filter_le_split)
  from countingSort_place_correct [OF pre2 _ _ inv, of "replicate (length a) 0" log]
  obtain cs3 where v: "countingSort_place a (cs2, replicate (length a) 0, log) (int (length a) - 1) =
           Inr (cs3, placed a (length a) (replicate (length a) 0), log @ placements a (length a))"
    by auto
  let ?aux = "placed a (length a) (replicate (length a) 0)"
  have la: "length ?aux = length a" by (simp add: placed_def)
  have w: "countingSort_copy a ?aux (int 0) = Inr (take 0 a @ drop 0 ?aux)"
    using la by (intro countingSort_copy_correct) simp_all
  show ?thesis
    using False t(1) u(1) v w by (simp add: countingSort_def countingSort_init_def)
qed


lemma length_placed [simp]: "length (placed a n xs) = length xs"
  by (simp add: placed_def)

lemma placed_nth:
  assumes "i < length a" "length xs = length a"
  shows "placed a (length a) xs ! stable_position a i = a ! i"
proof -
  have "inj_on (stable_position a) (set (rev [0..<length a]))"
    by (auto simp: inj_on_def intro: stable_position_inj)
  then have "distinct (map (stable_position a) (rev [0..<length a]))"
    by (simp add: distinct_map)
  moreover have "i \<in> set (rev [0..<length a])" using assms(1) by simp
  moreover have "stable_position a i < length xs"
    using stable_position_less [OF assms(1)] assms(2) by simp
  ultimately show ?thesis
    unfolding placed_def by (rule fold_update_nth)
qed

lemma placed_any:
  assumes "length xs = length a" "length ys = length a"
  shows "placed a (length a) xs = placed a (length a) ys"
  unfolding placed_def
proof (rule fold_update_agree)
  show "length xs = length ys" using assms by simp
  show "\<forall>p<length xs. p \<in> stable_position a ` set (rev [0..<length a]) \<or> xs ! p = ys ! p"
  proof (intro allI impI disjI1)
    fix p assume "p < length xs"
    then have "p < length a" using assms(1) by simp
    then obtain i where "i < length a" "stable_position a i = p"
      using stable_position_onto [of p a] by blast
    then show "p \<in> stable_position a ` set (rev [0..<length a])" by auto
  qed
qed

lemma sorted_placed:
  assumes "length xs = length a"
  shows "sorted (placed a (length a) xs)"
  unfolding sorted_iff_nth_mono
proof (intro allI impI)
  fix p q assume pq: "p \<le> q" "q < length (placed a (length a) xs)"
  then have "p < length a" "q < length a" using assms by simp_all
  then obtain i j where i: "i < length a" "stable_position a i = p"
    and j: "j < length a" "stable_position a j = q"
    using stable_position_onto [of p a] stable_position_onto [of q a] by blast
  have "a ! i \<le> a ! j"
    using i j pq(1) by (intro stable_position_mono) simp_all
  then show "placed a (length a) xs ! p \<le> placed a (length a) xs ! q"
    using placed_nth [OF i(1) assms] placed_nth [OF j(1) assms] i(2) j(2) by simp
qed

lemma mset_placed:
  assumes "length xs = length a"
  shows "mset (placed a (length a) xs) = mset a"
proof -
  let ?A = "{0..<length a}"
  let ?ys = "placed a (length a) xs"
  have inj: "inj_on (stable_position a) ?A"
    by (auto simp: inj_on_def intro: stable_position_inj)
  have "stable_position a ` ?A \<subseteq> ?A"
    by (auto simp: stable_position_less)
  then have img: "stable_position a ` ?A = ?A"
    using inj by (intro endo_inj_surj) simp_all
  have "mset ?ys = image_mset ((!) ?ys) (mset [0..<length ?ys])"
    by (metis map_nth mset_map)
  also have "\<dots> = image_mset ((!) ?ys) (mset_set ?A)"
    using assms by (simp add: mset_upt)
  also have "mset_set ?A = image_mset (stable_position a) (mset_set ?A)"
    using image_mset_mset_set [OF inj] img by simp
  also have "image_mset ((!) ?ys) (image_mset (stable_position a) (mset_set ?A)) =
             image_mset (\<lambda>i. ?ys ! stable_position a i) (mset_set ?A)"
    by (simp add: multiset.map_comp comp_def)
  also have "\<dots> = image_mset ((!) a) (mset_set ?A)"
    using placed_nth [OF _ assms] by (intro image_mset_cong) simp
  also have "\<dots> = image_mset ((!) a) (mset [0..<length a])"
    by (simp add: mset_upt)
  also have "\<dots> = mset a"
    by (metis map_nth mset_map)
  finally show ?thesis .
qed

lemma placed_sort:
  assumes "length xs = length a"
  shows "placed a (length a) xs = sort a"
  using sorted_placed [OF assms] mset_placed [OF assms] by (simp add: properties_for_sort)

lemma countingSort_sorts:
  assumes "\<forall>x\<in>set a. 0 \<le> x"
  shows "countingSort (a, log) = Inr (sort a, log @ placements a (length a))"
  using countingSort_result [OF assms] by (simp add: placed_sort)

lemma calculateBinDimension_in_range:
  assumes "p < length b"
  shows "\<exists>b'. calculateBinDimension hs cs b (Index (int p)) v = Inr b'
           \<and> map value b' = (map value b)[p := v]"
  using assms
  by (simp add: calculateBinDimension_def read_def store_def in_range_def Let_def map_update)

lemma animateCountingSort_Nil: "animateCountingSort hs cs b [] = Inr b"
  by (simp add: animateCountingSort.simps)

lemma animateCountingSort_snoc:
  "animateCountingSort hs cs b (ms @ [IndexNewValue k v]) =
     (case calculateBinDimension hs cs b k v of
        Inl e \<Rightarrow> Inl e
      | Inr b' \<Rightarrow> animateCountingSort hs cs b' ms)"
  by (simp add: animateCountingSort.simps [of hs cs b "ms @ [IndexNewValue k v]"]
      cong: sum.case_cong)

lemma animateCountingSort_placements:
  assumes "n \<le> length a" "length b = length a"
  shows "\<exists>b'. animateCountingSort hs cs b (rev (placements a n)) = Inr b'
           \<and> map value b' = placed a n (map value b)"
  using assms
proof (induction n arbitrary: b)
  case 0
  then show ?case by (simp add: placements_def placed_def animateCountingSort_Nil)
next
  case (Suc i)
  then have lt: "i < length a" by simp
  let ?p = "stable_position a i"
  have "?p < length b" using stable_position_less [OF lt] Suc.prems(2) by simp
  from calculateBinDimension_in_range [OF this, where hs = hs and cs = cs and v = "a ! i"]
  obtain b1 where b1: "calculateBinDimension hs cs b (Index (int ?p)) (a ! i) = Inr b1"
    "map value b1 = (map value b)[?p := a ! i]"
    by blast
  have "length b1 = length a"
    using b1(2) Suc.prems(2) by (metis length_list_update length_map)
  moreover have "i \<le> length a" using lt by simp
  ultimately obtain b' where b': "animateCountingSort hs cs b1 (rev (placements a i)) = Inr b'"
    "map value b' = placed a i (map value b1)"
    using Suc.IH [of b1] by blast
  have "rev (placements a (Suc i)) = rev (placements a i) @ [IndexNewValue (Index (int ?p)) (a ! i)]"
    by (simp add: placements_def)
  then have "animateCountingSort hs cs b (rev (placements a (Suc i))) = Inr b'"
    using b1(1) b'(1) by (simp add: animateCountingSort_snoc)
  moreover have "placed a (Suc i) (map value b) = placed a i (map value b1)"
    using b1(2) by (simp add: placed_def)
  ultimately show ?case using b'(2) by simp
qed

lemma countingSort_replay:
  fixes b :: "'h bin list"
  assumes "\<forall>x\<in>set a. 0 \<le> x" "map value b = a"
  shows "\<exists>ms b'. countingSort (a, []) = Inr (sort a, ms)
           \<and> animateCountingSort hs cs b (rev ms) = Inr b' \<and> map value b' = sort a"
proof -
  have lb: "length b = length a" using assms(2) by auto
  from animateCountingSort_placements [OF order_refl lb, where hs = hs and cs = cs]
  obtain b' where b': "animateCountingSort hs cs b (rev (placements a (length a))) = Inr b'"
    "map value b' = placed a (length a) (map value b)"
    by blast
  have "map value b' = sort a"
    using b'(2) lb by (simp add: placed_sort)
  then show ?thesis
    using countingSort_sorts [OF assms(1), of "[]"] b'(1) by simp
qed

text \<open>
  Claim C10. On an array of \<open>N\<close> integers that are not negative, \<open>countingSort\<close> returns and
  appends exactly \<open>N\<close> moves to the log; the indices of these moves are pairwise
  distinct and are exactly the indices \<open>0 .. N - 1\<close>: each index is written once.
\<close>

theorem countingSort_writes_each_index_once:
  assumes "\<forall>x\<in>set a. 0 \<le> x"
  shows "\<exists>a' ms. countingSort (a, log) = Inr (a', log @ ms)
           \<and> length ms = length a
           \<and> distinct (map action_index ms)
           \<and> set (map action_index ms) = (\<lambda>p. Index (int p)) ` {0..<length a}"
proof -
  let ?ms = "placements a (length a)"
  let ?A = "{0..<length a}"
  have inj: "inj_on (stable_position a) ?A"
    by (auto simp: inj_on_def intro: stable_position_inj)
  have "stable_position a ` ?A \<subseteq> ?A"
    by (auto simp: stable_position_less)
  then have img: "stable_position a ` ?A = ?A"
    using inj by (intro endo_inj_surj) simp_all
  have idx: "map action_index ?ms = map (\<lambda>j. Index (int (stable_position a j))) (rev [0..<length a])"
    by (simp add: placements_def comp_def)
  have "inj_on (\<lambda>j. Index (int (stable_position a j))) (set (rev [0..<length a]))"
    using inj by (auto simp: inj_on_def)
  then have "distinct (map action_index ?ms)"
    unfolding idx by (simp add: distinct_map)
  moreover have "set (map action_index ?ms) = (\<lambda>p. Index (int p)) ` ?A"
  proof -
    have "set (map action_index ?ms) = (\<lambda>p. Index (int p)) ` (stable_position a ` ?A)"
      unfolding idx by (simp add: image_image)
    then show ?thesis using img by simp
  qed
  moreover have "length ?ms = length a" by (simp add: placements_def)
  ultimately show ?thesis
    using countingSort_sorts [OF assms, of log] by blast
qed

theorem countingSort_writes_each_index_once_witness:
  "\<exists>a' ms. countingSort ([2, 2, 0, 1], []) = Inr (a', [] @ ms)
           \<and> length ms = length [2, 2, 0, 1 :: int]
           \<and> distinct (map action_index ms)
           \<and> set (map action_index ms) = (\<lambda>p. Index (int p)) ` {0..<length [2, 2, 0, 1 :: int]}"
  by (rule countingSort_writes_each_index_once) simp

text \<open>
  Claim C5. \<open>countingSort\<close> is stable on arrays of integers that are not negative. The
  loop runs from the last index backward and emits, for the input index \<open>i\<close>, the move that
  writes the key \<open>a[i]\<close> at a slot \<open>pos i\<close>; the sorted output holds \<open>a[i]\<close> at that
  slot, and two equal keys at input indices \<open>i < j\<close> get slots \<open>pos i < pos j\<close>: equal
  elements appear in the output in their input order.
\<close>

theorem countingSort_stable:
  assumes "\<forall>x\<in>set a. 0 \<le> x"
  shows "\<exists>a' pos. countingSort (a, log) =
             Inr (a', log @ map (\<lambda>i. IndexNewValue (Index (int (pos i))) (a ! i)) (rev [0..<length a]))
           \<and> length a' = length a \<and> sorted a' \<and> mset a' = mset a
           \<and> (\<forall>i<length a. pos i < length a \<and> a' ! pos i = a ! i)
           \<and> (\<forall>i j. i < j \<and> j < length a \<and> a ! i = a ! j \<longrightarrow> pos i < pos j)"
proof (intro exI conjI)
  let ?a' = "placed a (length a) (replicate (length a) 0)"
  show "countingSort (a, log) =
        Inr (?a', log @ map (\<lambda>i. IndexNewValue (Index (int (stable_position a i))) (a ! i)) (rev [0..<length a]))"
    using countingSort_result [OF assms, of log] by (simp add: placements_def)
  show "length ?a' = length a" by simp
  show "sorted ?a'" by (rule sorted_placed) simp
  show "mset ?a' = mset a" by (rule mset_placed) simp
  show "\<forall>i<length a. stable_position a i < length a \<and> ?a' ! stable_position a i = a ! i"
    by (simp add: stable_position_less placed_nth)
  show "\<forall>i j. i < j \<and> j < length a \<and> a ! i = a ! j \<longrightarrow> stable_position a i < stable_position a j"
    by (auto intro: stable_position_stable)
qed

theorem countingSort_stable_witness:
  "\<exists>a' pos. countingSort ([2, 2, 0, 1], []) =
             Inr (a', [] @ map (\<lambda>i. IndexNewValue (Index (int (pos i))) ([2, 2, 0, 1] ! i))
                             (rev [0..<length [2, 2, 0, 1 :: int]]))
           \<and> length a' = length [2, 2, 0, 1 :: int] \<and> sorted a' \<and> mset a' = mset [2, 2, 0, 1]
           \<and> (\<forall>i<length [2, 2, 0, 1 :: int]. pos i < length [2, 2, 0, 1 :: int] \<and> a' ! pos i = [2, 2, 0, 1] ! i)
           \<and> (\<forall>i j. i < j \<and> j < length [2, 2, 0, 1 :: int] \<and> [2, 2, 0, 1 :: int] ! i = [2, 2, 0, 1] ! j \<longrightarrow> pos i < pos j)"
  by (rule countingSort_stable) simp

section \<open>Merge sort: the merge, the recursion, the replay\<close>

lemma mset_merge_lists: "mset (merge_lists xs ys) = mset xs + mset ys"
  by (induction xs ys rule: merge_lists.induct) auto

lemma set_merge_lists: "set (merge_lists xs ys) = set xs \<union> set ys"
  using mset_merge_lists [of xs ys] by (metis set_mset_mset set_mset_union)

lemma sorted_merge_lists: "sorted xs \<Longrightarrow> sorted ys \<Longrightarrow> sorted (merge_lists xs ys)"
  by (induction xs ys rule: merge_lists.induct) (auto simp: set_merge_lists)

lemma length_merge_lists: "length (merge_lists xs ys) = length xs + length ys"
  by (induction xs ys rule: merge_lists.induct) auto

lemma merge_lists_sort:
  "merge_lists (sort xs) (sort ys) = sort (xs @ ys)"
  by (rule properties_for_sort [symmetric]) (simp_all add: mset_merge_lists sorted_merge_lists)

lemma writes_append: "writes k (vs @ ws) = writes k vs @ writes (k + length vs) ws"
  by (induction vs arbitrary: k) auto

lemma writes_nth:
  "writes k vs = map (\<lambda>m. IndexValue (int (k + m)) (vs ! m)) [0..<length vs]"
proof (induction vs arbitrary: k)
  case Nil
  show ?case by simp
next
  case (Cons v vs)
  have "[0..<length (v # vs)] = 0 # map Suc [0..<length vs]"
    by (simp add: upt_conv_Cons map_Suc_upt del: upt_Suc)
  then show ?case by (simp add: Cons.IH comp_def del: upt_Suc)
qed

lemma merge_copy_done: "\<not> i \<le> hi \<Longrightarrow> merge_copy a aux hi i = Inr aux"
  by (simp add: merge_copy.simps)

lemma merge_copy_correct:
  assumes "0 \<le> i" "hi < int (length a)"
  shows "merge_copy a aux hi i =
         Inr (\<lambda>k. if i \<le> k \<and> k \<le> hi then Some (a ! nat k) else aux k)"
  using assms
proof (induction "nat (hi + 1 - i)" arbitrary: i aux)
  case 0
  then have "\<not> i \<le> hi" by simp
  then show ?case by (auto simp: merge_copy_done fun_eq_iff)
next
  case (Suc d)
  then have le: "i \<le> hi" and d: "d = nat (hi + 1 - (i + 1))" by linarith+
  have "read a i = Inr (a ! nat i)"
    using Suc.prems le by (simp add: read_def in_range_def)
  then have "merge_copy a aux hi i = merge_copy a (aux(i \<mapsto> a ! nat i)) hi (i + 1)"
    using le by (simp add: merge_copy.simps [of a aux hi i])
  also have "\<dots> = Inr (\<lambda>k. if i + 1 \<le> k \<and> k \<le> hi then Some (a ! nat k) else (aux(i \<mapsto> a ! nat i)) k)"
    using Suc.hyps(1) [OF d _ Suc.prems(2)] Suc.prems(1) by simp
  also have "(\<lambda>k. if i + 1 \<le> k \<and> k \<le> hi then Some (a ! nat k) else (aux(i \<mapsto> a ! nat i)) k) =
             (\<lambda>k. if i \<le> k \<and> k \<le> hi then Some (a ! nat k) else aux k)"
    using le by (auto simp: fun_eq_iff)
  finally show ?case .
qed

lemma merge_put_in_range:
  assumes "aux src = Some v" "k = int (length pre)"
  shows "merge_put (pre @ r # rest, aux, log) k src =
         Inr ((pre @ [v]) @ rest, aux, log @ [IndexValue k v])"
  using assms by (simp add: merge_put_def store_def in_range_def)

lemma merge_loop_done: "\<not> k \<le> hi \<Longrightarrow> merge_loop s mid hi i j k = Inr s"
  by (simp add: merge_loop.simps)

lemma merge_loop_step:
  assumes "k \<le> hi" "merge_step s mid hi i j k = Inr (s', i', j')"
  shows "merge_loop s mid hi i j k = merge_loop s' mid hi i' j' (k + 1)"
  using assms by (simp add: merge_loop.simps [of s mid hi i j k])

lemma run_tail:
  assumes "\<forall>m<length (x # xs). aux (i + int m) = Some ((x # xs) ! m)"
  shows "\<forall>m<length xs. aux (i + 1 + int m) = Some (xs ! m)"
proof (intro allI impI)
  fix m assume "m < length xs"
  then have "aux (i + int (Suc m)) = Some ((x # xs) ! Suc m)"
    using assms by (metis Suc_less_eq length_Cons)
  then show "aux (i + 1 + int m) = Some (xs ! m)"
    by (simp add: algebra_simps)
qed

lemma merge_loop_correct:
  assumes "k = int (length pre)" "length rest = length xs + length ys"
      and "hi = k + int (length rest) - 1"
      and "i = mid + 1 - int (length xs)" "j = hi + 1 - int (length ys)"
      and "\<forall>m<length xs. aux (i + int m) = Some (xs ! m)"
      and "\<forall>m<length ys. aux (j + int m) = Some (ys ! m)"
  shows "merge_loop (pre @ rest @ post, aux, log) mid hi i j k =
         Inr (pre @ merge_lists xs ys @ post, aux, log @ writes (length pre) (merge_lists xs ys))"
  using assms
proof (induction rest arbitrary: pre xs ys i j k log)
  case Nil
  then have "xs = []" "ys = []" "\<not> k \<le> hi" by simp_all
  then show ?case by (simp add: merge_loop_done)
next
  case (Cons r rest)
  have khi: "k \<le> hi" using Cons.prems(3) by simp
  let ?s = "(pre @ r # rest @ post, aux, log)"
  have put: "aux src = Some v \<Longrightarrow>
      merge_put ?s k src = Inr ((pre @ [v]) @ rest @ post, aux, log @ [IndexValue k v])" for src v
    using merge_put_in_range [of aux src v k pre r "rest @ post" log] Cons.prems(1) by simp
  have k': "k + 1 = int (length (pre @ [v]))" for v :: int using Cons.prems(1) by simp
  have hi': "hi = k + 1 + int (length rest) - 1" using Cons.prems(3) by simp
  consider (left_done) "xs = []" | (right_done) "xs \<noteq> []" "ys = []"
    | (both) "xs \<noteq> []" "ys \<noteq> []" by blast
  then show ?case
  proof cases
    case left_done
    then obtain y ys' where ys: "ys = y # ys'"
      using Cons.prems(2) by (cases ys) auto
    have i: "i > mid" using left_done Cons.prems(4) by simp
    have auxj: "aux j = Some y" using Cons.prems(7) [rule_format, of 0] ys by simp
    have step: "merge_step ?s mid hi i j k = Inr (((pre @ [y]) @ rest @ post, aux, log @ [IndexValue k y]), i, j + 1)"
      using i put [OF auxj] by (simp add: merge_step_def)
    have "merge_loop ((pre @ [y]) @ rest @ post, aux, log @ [IndexValue k y]) mid hi i (j + 1) (k + 1) =
          Inr ((pre @ [y]) @ merge_lists [] ys' @ post, aux,
               (log @ [IndexValue k y]) @ writes (length (pre @ [y])) (merge_lists [] ys'))"
    proof (rule Cons.IH [OF k' _ hi'])
      show "length rest = length ([]::int list) + length ys'" using Cons.prems(2) left_done ys by simp
      show "i = mid + 1 - int (length ([]::int list))" using Cons.prems(4) left_done by simp
      show "j + 1 = hi + 1 - int (length ys')" using Cons.prems(5) ys by simp
      show "\<forall>m<length ([]::int list). aux (i + int m) = Some ([] ! m)" by simp
      show "\<forall>m<length ys'. aux (j + 1 + int m) = Some (ys' ! m)"
        using Cons.prems(7) unfolding ys by (rule run_tail)
    qed
    then show ?thesis
      using merge_loop_step [OF khi step] left_done ys Cons.prems(1) by simp
  next
    case right_done
    then obtain x xs' where xs: "xs = x # xs'" by (cases xs) auto
    have i: "\<not> i > mid" using xs Cons.prems(4) by simp
    have j: "j > hi" using right_done Cons.prems(5) by simp
    have auxi: "aux i = Some x" using Cons.prems(6) [rule_format, of 0] xs by simp
    have step: "merge_step ?s mid hi i j k = Inr (((pre @ [x]) @ rest @ post, aux, log @ [IndexValue k x]), i + 1, j)"
      using i j put [OF auxi] by (simp add: merge_step_def)
    have "merge_loop ((pre @ [x]) @ rest @ post, aux, log @ [IndexValue k x]) mid hi (i + 1) j (k + 1) =
          Inr ((pre @ [x]) @ merge_lists xs' [] @ post, aux,
               (log @ [IndexValue k x]) @ writes (length (pre @ [x])) (merge_lists xs' []))"
    proof (rule Cons.IH [OF k' _ hi'])
      show "length rest = length xs' + length ([]::int list)" using Cons.prems(2) right_done xs by simp
      show "i + 1 = mid + 1 - int (length xs')" using Cons.prems(4) xs by simp
      show "j = hi + 1 - int (length ([]::int list))" using Cons.prems(5) right_done by simp
      show "\<forall>m<length ([]::int list). aux (j + int m) = Some ([] ! m)" by simp
      show "\<forall>m<length xs'. aux (i + 1 + int m) = Some (xs' ! m)"
        using Cons.prems(6) unfolding xs by (rule run_tail)
    qed
    moreover have "merge_lists xs [] = x # merge_lists xs' []"
      using xs by (cases xs') simp_all
    ultimately show ?thesis
      using merge_loop_step [OF khi step] right_done Cons.prems(1) by simp
  next
    case both
    then obtain x xs' y ys' where xs: "xs = x # xs'" and ys: "ys = y # ys'"
      by (cases xs; cases ys) auto
    have i: "\<not> i > mid" using xs Cons.prems(4) by simp
    have j: "\<not> j > hi" using ys Cons.prems(5) by simp
    have auxi: "aux i = Some x" using Cons.prems(6) [rule_format, of 0] xs by simp
    have auxj: "aux j = Some y" using Cons.prems(7) [rule_format, of 0] ys by simp
    show ?thesis
    proof (cases "x > y")
      case True
      have step: "merge_step ?s mid hi i j k = Inr (((pre @ [y]) @ rest @ post, aux, log @ [IndexValue k y]), i, j + 1)"
        using i j True auxi auxj put [OF auxj] by (simp add: merge_step_def)
      have "merge_loop ((pre @ [y]) @ rest @ post, aux, log @ [IndexValue k y]) mid hi i (j + 1) (k + 1) =
            Inr ((pre @ [y]) @ merge_lists xs ys' @ post, aux,
                 (log @ [IndexValue k y]) @ writes (length (pre @ [y])) (merge_lists xs ys'))"
      proof (rule Cons.IH [OF k' _ hi'])
        show "length rest = length xs + length ys'" using Cons.prems(2) ys by simp
        show "i = mid + 1 - int (length xs)" using Cons.prems(4) by simp
        show "j + 1 = hi + 1 - int (length ys')" using Cons.prems(5) ys by simp
        show "\<forall>m<length xs. aux (i + int m) = Some (xs ! m)" using Cons.prems(6) by simp
        show "\<forall>m<length ys'. aux (j + 1 + int m) = Some (ys' ! m)"
          using Cons.prems(7) unfolding ys by (rule run_tail)
      qed
      then show ?thesis
        using merge_loop_step [OF khi step] True xs ys Cons.prems(1) by simp
    next
      case False
      have step: "merge_step ?s mid hi i j k = Inr (((pre @ [x]) @ rest @ post, aux, log @ [IndexValue k x]), i + 1, j)"
        using i j False auxi auxj put [OF auxi] by (simp add: merge_step_def)
      have "merge_loop ((pre @ [x]) @ rest @ post, aux, log @ [IndexValue k x]) mid hi (i + 1) j (k + 1) =
            Inr ((pre @ [x]) @ merge_lists xs' ys @ post, aux,
                 (log @ [IndexValue k x]) @ writes (length (pre @ [x])) (merge_lists xs' ys))"
      proof (rule Cons.IH [OF k' _ hi'])
        show "length rest = length xs' + length ys" using Cons.prems(2) xs by simp
        show "i + 1 = mid + 1 - int (length xs')" using Cons.prems(4) xs by simp
        show "j = hi + 1 - int (length ys)" using Cons.prems(5) by simp
        show "\<forall>m<length ys. aux (j + int m) = Some (ys ! m)" using Cons.prems(7) by simp
        show "\<forall>m<length xs'. aux (i + 1 + int m) = Some (xs' ! m)"
          using Cons.prems(6) unfolding xs by (rule run_tail)
      qed
      then show ?thesis
        using merge_loop_step [OF khi step] False xs ys Cons.prems(1) by simp
    qed
  qed
qed


lemma merge_decomposed:
  assumes "lo = int (length pre)" "mid = lo + int (length xs) - 1" "hi = mid + int (length ys)"
  shows "\<exists>aux'. merge (pre @ xs @ ys @ post, aux, log) lo mid hi =
           Inr (pre @ merge_lists xs ys @ post, aux', log @ writes (length pre) (merge_lists xs ys))"
proof -
  let ?a = "pre @ xs @ ys @ post"
  let ?aux = "\<lambda>k. if lo \<le> k \<and> k \<le> hi then Some (?a ! nat k) else aux k"
  have copy: "merge_copy ?a aux hi lo = Inr ?aux"
    using assms by (intro merge_copy_correct) simp_all
  have left: "\<forall>m<length xs. ?aux (lo + int m) = Some (xs ! m)"
    using assms by (auto simp: nth_append nat_add_distrib)
  have right: "\<forall>m<length ys. ?aux (mid + 1 + int m) = Some (ys ! m)"
  proof (intro allI impI)
    fix m assume m: "m < length ys"
    have "nat (mid + 1 + int m) = length pre + (length xs + m)" using assms by simp
    then have "?a ! nat (mid + 1 + int m) = ys ! m"
      using m by (simp add: nth_append)
    then show "?aux (mid + 1 + int m) = Some (ys ! m)" using assms m by simp
  qed
  have "merge_loop (pre @ (xs @ ys) @ post, ?aux, log) mid hi lo (mid + 1) lo =
        Inr (pre @ merge_lists xs ys @ post, ?aux, log @ writes (length pre) (merge_lists xs ys))"
    using assms left right by (intro merge_loop_correct) simp_all
  then show ?thesis using copy by (simp add: merge_def)
qed

lemma animateMergeSort_Nil: "animateMergeSort hs cs b [] = Inr b"
  by (simp add: animateMergeSort.simps)

lemma animateMergeSort_snoc:
  "animateMergeSort hs cs b (ms @ [IndexValue k v]) =
     (case calculateBinDimension hs cs b (Index k) v of
        Inl e \<Rightarrow> Inl e
      | Inr b' \<Rightarrow> animateMergeSort hs cs b' ms)"
  by (simp add: animateMergeSort.simps [of hs cs b "ms @ [IndexValue k v]"] cong: sum.case_cong)

lemma animateMergeSort_append:
  "animateMergeSort hs cs b (xs @ ys) =
     (case animateMergeSort hs cs b ys of
        Inl e \<Rightarrow> Inl e
      | Inr b' \<Rightarrow> animateMergeSort hs cs b' xs)"
proof (induction ys arbitrary: b rule: rev_induct)
  case Nil
  show ?case by (simp add: animateMergeSort_Nil)
next
  case (snoc m ys)
  obtain k v where m: "m = IndexValue k v" by (cases m)
  have "animateMergeSort hs cs b (xs @ ys @ [m]) =
        (case calculateBinDimension hs cs b (Index k) v of
           Inl e \<Rightarrow> Inl e | Inr b' \<Rightarrow> animateMergeSort hs cs b' (xs @ ys))"
    using animateMergeSort_snoc [of hs cs b "xs @ ys" k v] by (simp add: m)
  then show ?case
    by (simp add: m animateMergeSort_snoc snoc.IH split: sum.splits)
qed

lemma animateMergeSort_rev_append:
  assumes "animateMergeSort hs cs b (rev ms) = Inr b1" "animateMergeSort hs cs b1 (rev ms') = Inr b2"
  shows "animateMergeSort hs cs b (rev (ms @ ms')) = Inr b2"
  using assms by (simp add: animateMergeSort_append)

lemma animateMergeSort_writes:
  assumes "map value b = pre @ old @ post" "length old = length vs"
  shows "\<exists>b'. animateMergeSort hs cs b (rev (writes (length pre) vs)) = Inr b'
           \<and> map value b' = pre @ vs @ post"
  using assms
proof (induction vs arbitrary: b pre old)
  case Nil
  then show ?case by (simp add: animateMergeSort_Nil)
next
  case (Cons v vs)
  then obtain r old' where old: "old = r # old'" by (cases old) auto
  have "length b = length (pre @ old @ post)" using Cons.prems(1) by (metis length_map)
  then have "length pre < length b" using old by simp
  from calculateBinDimension_in_range [OF this, where hs = hs and cs = cs and v = v]
  obtain b1 where b1: "calculateBinDimension hs cs b (Index (int (length pre))) v = Inr b1"
    "map value b1 = (map value b)[length pre := v]"
    by blast
  have "map value b1 = (pre @ [v]) @ old' @ post"
    using b1(2) Cons.prems(1) old by simp
  moreover have "length old' = length vs" using Cons.prems(2) old by simp
  ultimately obtain b' where b': "animateMergeSort hs cs b1 (rev (writes (length (pre @ [v])) vs)) = Inr b'"
    "map value b' = (pre @ [v]) @ vs @ post"
    using Cons.IH [of b1 "pre @ [v]" old'] by blast
  have "animateMergeSort hs cs b (rev (writes (length pre) (v # vs))) = Inr b'"
    using b1(1) b'(1) by (simp add: animateMergeSort_snoc)
  then show ?case using b'(2) by simp
qed

lemma sort_short: "length xs \<le> 1 \<Longrightarrow> sort xs = (xs :: int list)"
  by (cases xs) (auto simp: length_Suc_conv)

lemma mergeSort_done: "hi \<le> lo \<Longrightarrow> mergeSort s lo hi = Inr s"
  by (simp add: mergeSort.simps)

lemma mergeSort_unfold:
  assumes "lo < hi"
      and "mergeSort s lo (lo + (hi - lo) div 2) = Inr s1"
      and "mergeSort s1 (lo + (hi - lo) div 2 + 1) hi = Inr s2"
  shows "mergeSort s lo hi = merge s2 lo (lo + (hi - lo) div 2) hi"
  using assms by (simp add: mergeSort.simps [of s lo hi] Let_def)

lemma mergeSort_decomposed:
  assumes "lo = int (length pre)" "hi = lo + int (length xs) - 1"
  shows "\<exists>aux' ms. mergeSort (pre @ xs @ post, aux, log) lo hi =
             Inr (pre @ sort xs @ post, aux', log @ ms)
           \<and> (\<forall>b :: 'h bin list. map value b = pre @ xs @ post \<longrightarrow>
                 (\<exists>b'. animateMergeSort hs cs b (rev ms) = Inr b'
                       \<and> map value b' = pre @ sort xs @ post))"
  using assms
proof (induction "length xs" arbitrary: pre xs post aux log lo hi rule: less_induct)
  case less
  show ?case
  proof (cases "length xs \<le> 1")
    case True
    then have "hi \<le> lo" using less.prems(2) by simp
    then have "mergeSort (pre @ xs @ post, aux, log) lo hi = Inr (pre @ sort xs @ post, aux, log @ [])"
      using True by (simp add: mergeSort_done sort_short)
    moreover have "\<forall>b :: 'h bin list. map value b = pre @ xs @ post \<longrightarrow>
                 (\<exists>b'. animateMergeSort hs cs b (rev []) = Inr b'
                       \<and> map value b' = pre @ sort xs @ post)"
      using True by (simp add: animateMergeSort_Nil sort_short)
    ultimately show ?thesis by blast
  next
    case False
    define h where "h = (length xs - 1) div 2"
    define L where "L = take (Suc h) xs"
    define R where "R = drop (Suc h) xs"
    let ?mid = "lo + (hi - lo) div 2"
    have n2: "2 \<le> length xs" using False by simp
    have hlt: "Suc h < length xs" using n2 by (simp add: h_def)
    have xs: "xs = L @ R" by (simp add: L_def R_def)
    have lL: "length L = Suc h" using hlt by (simp add: L_def)
    have lR: "length R = length xs - Suc h" by (simp add: R_def)
    have "hi - lo = int (length xs - 1)" using less.prems(2) n2 by simp
    then have "(hi - lo) div 2 = int h" by (simp add: h_def zdiv_int)
    then have mid: "?mid = lo + int (length L) - 1" using lL by simp
    have lohi: "lo < hi" using less.prems(2) n2 by simp
    have smL: "length L < length xs" using hlt lL by simp
    have smR: "length R < length xs" using lR n2 by simp
    from less.hyps [OF smL less.prems(1) mid, where post = "R @ post" and aux = aux and log = log]
    obtain aux1 ms1 where l: "mergeSort (pre @ L @ R @ post, aux, log) lo ?mid =
          Inr (pre @ sort L @ R @ post, aux1, log @ ms1)"
      "\<forall>b :: 'h bin list. map value b = pre @ L @ R @ post \<longrightarrow>
         (\<exists>b'. animateMergeSort hs cs b (rev ms1) = Inr b' \<and> map value b' = pre @ sort L @ R @ post)"
      by blast
    have lo2: "?mid + 1 = int (length (pre @ sort L))" using mid less.prems(1) by simp
    have hi2: "hi = ?mid + 1 + int (length R) - 1"
      using mid less.prems(2) lL lR hlt by simp
    from less.hyps [OF smR lo2 hi2, where post = post and aux = aux1 and log = "log @ ms1"]
    obtain aux2 ms2 where r: "mergeSort ((pre @ sort L) @ R @ post, aux1, log @ ms1) (?mid + 1) hi =
          Inr ((pre @ sort L) @ sort R @ post, aux2, (log @ ms1) @ ms2)"
      "\<forall>b :: 'h bin list. map value b = (pre @ sort L) @ R @ post \<longrightarrow>
         (\<exists>b'. animateMergeSort hs cs b (rev ms2) = Inr b' \<and> map value b' = (pre @ sort L) @ sort R @ post)"
      by blast
    have mid3: "?mid = lo + int (length (sort L)) - 1" using mid by simp
    have hi3: "hi = ?mid + int (length (sort R))" using hi2 by simp
    from merge_decomposed [OF less.prems(1) mid3 hi3, where post = post and aux = aux2 and log = "(log @ ms1) @ ms2"]
    obtain aux3 where m: "merge (pre @ sort L @ sort R @ post, aux2, (log @ ms1) @ ms2) lo ?mid hi =
           Inr (pre @ merge_lists (sort L) (sort R) @ post, aux3,
                ((log @ ms1) @ ms2) @ writes (length pre) (merge_lists (sort L) (sort R)))"
      by blast
    let ?ws = "writes (length pre) (merge_lists (sort L) (sort R))"
    have sorted_all: "merge_lists (sort L) (sort R) = sort xs"
      by (simp add: merge_lists_sort xs)
    have "mergeSort (pre @ xs @ post, aux, log) lo hi =
          merge (pre @ sort L @ sort R @ post, aux2, (log @ ms1) @ ms2) lo ?mid hi"
      using mergeSort_unfold [OF lohi, of "(pre @ xs @ post, aux, log)"
          "(pre @ sort L @ R @ post, aux1, log @ ms1)"
          "(pre @ sort L @ sort R @ post, aux2, (log @ ms1) @ ms2)"] l(1) r(1) xs
      by simp
    then have res: "mergeSort (pre @ xs @ post, aux, log) lo hi =
          Inr (pre @ sort xs @ post, aux3, log @ (ms1 @ ms2 @ ?ws))"
      using m sorted_all by simp
    have play: "\<forall>b :: 'h bin list. map value b = pre @ xs @ post \<longrightarrow>
                 (\<exists>b'. animateMergeSort hs cs b (rev (ms1 @ ms2 @ ?ws)) = Inr b'
                       \<and> map value b' = pre @ sort xs @ post)"
    proof (intro allI impI)
      fix b :: "'h bin list" assume "map value b = pre @ xs @ post"
      then have "map value b = pre @ L @ R @ post" using xs by simp
      with l(2) obtain b1 where b1: "animateMergeSort hs cs b (rev ms1) = Inr b1"
        "map value b1 = pre @ sort L @ R @ post" by blast
      then have "map value b1 = (pre @ sort L) @ R @ post" by simp
      with r(2) obtain b2 where b2: "animateMergeSort hs cs b1 (rev ms2) = Inr b2"
        "map value b2 = (pre @ sort L) @ sort R @ post" by blast
      have "map value b2 = pre @ (sort L @ sort R) @ post" using b2(2) by simp
      moreover have "length (sort L @ sort R) = length (merge_lists (sort L) (sort R))"
        by (simp add: length_merge_lists)
      ultimately obtain b3 where b3: "animateMergeSort hs cs b2 (rev ?ws) = Inr b3"
        "map value b3 = pre @ merge_lists (sort L) (sort R) @ post"
        using animateMergeSort_writes [of b2 pre "sort L @ sort R" post "merge_lists (sort L) (sort R)" hs cs]
        by blast
      have "animateMergeSort hs cs b (rev (ms1 @ ms2)) = Inr b2"
        using b1(1) b2(1) by (rule animateMergeSort_rev_append)
      then have "animateMergeSort hs cs b (rev ((ms1 @ ms2) @ ?ws)) = Inr b3"
        using b3(1) by (rule animateMergeSort_rev_append)
      then show "\<exists>b'. animateMergeSort hs cs b (rev (ms1 @ ms2 @ ?ws)) = Inr b'
                       \<and> map value b' = pre @ sort xs @ post"
        using b3(2) sorted_all by simp
    qed
    show ?thesis
    proof (intro exI conjI)
      show "mergeSort (pre @ xs @ post, aux, log) lo hi =
          Inr (pre @ sort xs @ post, aux3, log @ (ms1 @ ms2 @ ?ws))" by fact
    qed (fact play)
  qed
qed

lemma mergeSort_replay:
  fixes b :: "'h bin list"
  assumes "map value b = a"
  shows "\<exists>aux' ms b'. mergeSort (a, Map.empty, []) 0 (int (length a) - 1) = Inr (sort a, aux', ms)
           \<and> animateMergeSort hs cs b (rev ms) = Inr b' \<and> map value b' = sort a"
proof -
  from mergeSort_decomposed [of 0 "[]" "int (length a) - 1" a "[]" Map.empty "[]", where ?'h = 'h and hs = hs and cs = cs]
  obtain aux' ms where r: "mergeSort (a, Map.empty, []) 0 (int (length a) - 1) = Inr (sort a, aux', ms)"
    "\<forall>b :: 'h bin list. map value b = a \<longrightarrow>
         (\<exists>b'. animateMergeSort hs cs b (rev ms) = Inr b' \<and> map value b' = sort a)"
    by auto
  then show ?thesis using assms by blast
qed


lemma slices_decompose:
  assumes "0 \<le> lo" "lo \<le> mid + 1" "mid \<le> hi" "hi < int (length a)"
  shows "a = take (nat lo) a @ slice a lo mid @ slice a (mid + 1) hi @ drop (nat (hi + 1)) a"
    and "length (take (nat lo) a) = nat lo"
    and "length (slice a lo mid) = nat (mid + 1 - lo)"
    and "length (slice a (mid + 1) hi) = nat (hi - mid)"
    and "slice a lo hi = slice a lo mid @ slice a (mid + 1) hi"
proof -
  define l m h where "l = nat lo" and "m = nat (mid + 1 - lo)" and "h = nat (hi - mid)"
  have n1: "nat (mid + 1) = l + m" and n2: "nat (hi + 1) = l + m + h"
    and n3: "nat (hi + 1 - (mid + 1)) = h" and n4: "nat (hi + 1 - lo) = m + h"
    and len: "l + m + h \<le> length a"
    using assms by (simp_all add: l_def m_def h_def)
  have s1: "slice a lo mid = take m (drop l a)"
    by (simp add: slice_def l_def m_def)
  have s2: "slice a (mid + 1) hi = take h (drop (l + m) a)"
    unfolding slice_def n1 n3 ..
  have s3: "slice a lo hi = take (m + h) (drop l a)"
    by (simp add: slice_def n4 l_def)
  have d1: "drop l a = take m (drop l a) @ drop (l + m) a"
    by (metis add.commute append_take_drop_id drop_drop)
  have d2: "drop (l + m) a = take h (drop (l + m) a) @ drop (l + m + h) a"
    by (metis add.commute append_take_drop_id drop_drop)
  have "a = take l a @ drop l a" by simp
  also have "drop l a = take m (drop l a) @ take h (drop (l + m) a) @ drop (l + m + h) a"
    using d1 d2 by simp
  finally show "a = take (nat lo) a @ slice a lo mid @ slice a (mid + 1) hi @ drop (nat (hi + 1)) a"
    by (simp add: s1 s2 n2 l_def)
  show "length (take (nat lo) a) = nat lo" using len by (simp add: l_def)
  show "length (slice a lo mid) = nat (mid + 1 - lo)" using len by (simp add: s1 m_def)
  show "length (slice a (mid + 1) hi) = nat (hi - mid)" using len by (simp add: s2 h_def)
  have "take (m + h) (drop l a) = take m (drop l a) @ take h (drop m (drop l a))"
    by (rule take_add)
  also have "drop m (drop l a) = drop (l + m) a"
    by (simp only: drop_drop add.commute [of m l])
  finally have "take (m + h) (drop l a) = take m (drop l a) @ take h (drop (l + m) a)" .
  then show "slice a lo hi = slice a lo mid @ slice a (mid + 1) hi"
    by (simp add: s1 s2 s3)
qed

lemma slice_of_decomposed:
  assumes "lo = int (length pre)" "hi = lo + int (length xs) - 1"
  shows "slice (pre @ xs @ post) lo hi = xs"
  using assms by (simp add: slice_def)

lemma upto_as_upt: "[lo..hi] = map (\<lambda>m. lo + int m) [0..<nat (hi + 1 - lo)]"
proof (rule nth_equalityI)
  show "length [lo..hi] = length (map (\<lambda>m. lo + int m) [0..<nat (hi + 1 - lo)])"
    by (simp add: algebra_simps)
  fix i assume "i < length [lo..hi]"
  then have i: "i < nat (hi + 1 - lo)" by (simp add: algebra_simps)
  then have "[lo..hi] ! i = lo + int i" by (intro nth_upto) linarith
  moreover have "map (\<lambda>m. lo + int m) [0..<nat (hi + 1 - lo)] ! i = lo + int i"
    using i by (simp del: upt_Suc)
  ultimately show "[lo..hi] ! i = map (\<lambda>m. lo + int m) [0..<nat (hi + 1 - lo)] ! i" by simp
qed

lemma writes_as_indices:
  assumes "lo = int (length pre)" "hi = lo + int (length vs) - 1"
  shows "writes (length pre) vs = map (\<lambda>k. IndexValue k ((pre @ vs @ post) ! nat k)) [lo..hi]"
proof -
  have "nat (hi + 1 - lo) = length vs" using assms by simp
  moreover have "(pre @ vs @ post) ! nat (lo + int m) = vs ! m" if "m < length vs" for m
  proof -
    have "nat (lo + int m) = length pre + m" using assms(1) by simp
    then show ?thesis using that by (simp add: nth_append)
  qed
  ultimately show ?thesis
    using assms(1) by (simp add: writes_nth upto_as_upt comp_def)
qed

text \<open>
  Claim C4. For indices \<open>0 \<le> lo \<le> mid < hi\<close> within the array whose runs \<open>a[lo..mid]\<close>
  and \<open>a[mid+1..hi]\<close> are sorted, \<open>merge(a, aux, lo, mid, hi)\<close> returns; \<open>a[lo..hi]\<close> is
  then sorted, holds the same elements as before, and is the merge of the two runs that
  takes the head of the left run on a tie; the rest of the array is unchanged; the log
  grows by exactly one move \<open>{index: k, value: a[k]}\<close> for each \<open>k\<close> from \<open>lo\<close> to \<open>hi\<close>, in
  increasing order of \<open>k\<close>, with the value written at \<open>k\<close> (whichever branch wrote it); and
  an iteration that finds equal heads in two runs that are not exhausted writes the head of
  the left run and advances the left cursor.
\<close>

theorem merge_sorted_runs:
  assumes "0 \<le> lo" "lo \<le> mid" "mid < hi" "hi < int (length a)"
      and "sorted (slice a lo mid)" "sorted (slice a (mid + 1) hi)"
  shows "\<exists>a' aux'.
           merge (a, aux, log) lo mid hi =
             Inr (a', aux', log @ map (\<lambda>k. IndexValue k (a' ! nat k)) [lo..hi])
         \<and> length a' = length a
         \<and> sorted (slice a' lo hi)
         \<and> mset (slice a' lo hi) = mset (slice a lo hi)
         \<and> slice a' lo hi = merge_lists (slice a lo mid) (slice a (mid + 1) hi)
         \<and> take (nat lo) a' = take (nat lo) a
         \<and> drop (nat (hi + 1)) a' = drop (nat (hi + 1)) a
         \<and> (\<forall>s i j k x. fst (snd s) i = Some x \<and> fst (snd s) j = Some x \<and> i \<le> mid \<and> j \<le> hi \<longrightarrow>
               merge_step s mid hi i j k =
                 (case merge_put s k i of Inl e \<Rightarrow> Inl e | Inr s' \<Rightarrow> Inr (s', i + 1, j)))"
proof -
  define pre xs ys post where "pre = take (nat lo) a" and "xs = slice a lo mid"
    and "ys = slice a (mid + 1) hi" and "post = drop (nat (hi + 1)) a"
  have le: "lo \<le> mid + 1" "mid \<le> hi" using assms(2,3) by simp_all
  note d = slices_decompose [OF assms(1) le assms(4)]
  have a: "a = pre @ xs @ ys @ post"
    using d(1) by (simp add: pre_def xs_def ys_def post_def)
  have lo: "lo = int (length pre)" using d(2) assms(1) by (simp add: pre_def)
  have mid: "mid = lo + int (length xs) - 1" using d(3) assms(2) by (simp add: xs_def)
  have hi: "hi = mid + int (length ys)" using d(4) assms(3) by (simp add: ys_def)
  let ?m = "merge_lists xs ys"
  let ?a' = "pre @ ?m @ post"
  from merge_decomposed [OF lo mid hi, where post = post and aux = aux and log = log]
  obtain aux' where r: "merge (pre @ xs @ ys @ post, aux, log) lo mid hi =
      Inr (?a', aux', log @ writes (length pre) ?m)"
    by blast
  have hi': "hi = lo + int (length ?m) - 1"
    using mid hi by (simp add: length_merge_lists)
  have w: "writes (length pre) ?m = map (\<lambda>k. IndexValue k (?a' ! nat k)) [lo..hi]"
    using lo hi' by (rule writes_as_indices)
  have sl: "slice ?a' lo hi = ?m" using lo hi' by (rule slice_of_decomposed)
  have lp: "nat lo = length pre" using lo by simp
  have hp: "nat (hi + 1) = length pre + length ?m" using lo hi' by simp
  show ?thesis
  proof (intro exI conjI)
    show "merge (a, aux, log) lo mid hi =
          Inr (?a', aux', log @ map (\<lambda>k. IndexValue k (?a' ! nat k)) [lo..hi])"
      using r w a by simp
    show "length ?a' = length a" using a by (simp add: length_merge_lists)
    show "sorted (slice ?a' lo hi)"
      using assms(5,6) sl by (simp add: sorted_merge_lists xs_def ys_def)
    show "mset (slice ?a' lo hi) = mset (slice a lo hi)"
      using sl d(5) by (simp add: mset_merge_lists xs_def ys_def)
    show "slice ?a' lo hi = merge_lists (slice a lo mid) (slice a (mid + 1) hi)"
      using sl by (simp add: xs_def ys_def)
    show "take (nat lo) ?a' = take (nat lo) a" using a lp by simp
    show "drop (nat (hi + 1)) ?a' = drop (nat (hi + 1)) a"
      using a hp by (simp add: length_merge_lists)
    show "\<forall>s i j k x. fst (snd s) i = Some x \<and> fst (snd s) j = Some x \<and> i \<le> mid \<and> j \<le> hi \<longrightarrow>
               merge_step s mid hi i j k =
                 (case merge_put s k i of Inl e \<Rightarrow> Inl e | Inr s' \<Rightarrow> Inr (s', i + 1, j))"
      by (simp add: merge_step_def)
  qed
qed

theorem merge_sorted_runs_witness:
  "\<exists>a' aux'.
           merge ([1, 3, 5, 3, 4], Map.empty, []) 0 2 4 =
             Inr (a', aux', [] @ map (\<lambda>k. IndexValue k (a' ! nat k)) [0..4])
         \<and> length a' = length [1, 3, 5, 3, 4 :: int]
         \<and> sorted (slice a' 0 4)
         \<and> mset (slice a' 0 4) = mset (slice [1, 3, 5, 3, 4] 0 4)
         \<and> slice a' 0 4 = merge_lists (slice [1, 3, 5, 3, 4] 0 2) (slice [1, 3, 5, 3, 4] (2 + 1) 4)
         \<and> take (nat 0) a' = take (nat 0) [1, 3, 5, 3, 4]
         \<and> drop (nat (4 + 1)) a' = drop (nat (4 + 1)) [1, 3, 5, 3, 4]
         \<and> (\<forall>s i j k x. fst (snd s) i = Some x \<and> fst (snd s) j = Some x \<and> i \<le> 2 \<and> j \<le> 4 \<longrightarrow>
               merge_step s 2 4 i j k =
                 (case merge_put s k i of Inl e \<Rightarrow> Inl e | Inr s' \<Rightarrow> Inr (s', i + 1, j)))"
  by (rule merge_sorted_runs) (simp_all add: slice_def)

section \<open>Quick sort: the scans, the partition, the recursion, the replay\<close>

lemma partition_scan_start_unfold:
  "start < length a \<Longrightarrow>
   partition_scan_start a pivot (int hi) (int start) =
     (if a ! start \<le> pivot
      then (if start \<ge> hi then Inr (int start)
            else partition_scan_start a pivot (int hi) (int (Suc start)))
      else Inr (int start))"
  by (subst partition_scan_start.simps) (simp add: read_def in_range_def add.commute)

lemma partition_scan_end_unfold:
  "e < length a \<Longrightarrow>
   partition_scan_end a pivot (int e) =
     (if a ! e > pivot then partition_scan_end a pivot (int e - 1) else Inr (int e))"
  by (subst partition_scan_end.simps) (simp add: read_def in_range_def)

lemma partition_scan_start_correct:
  assumes "start \<le> hi" "hi < length a"
  shows "\<exists>s'. partition_scan_start a pivot (int hi) (int start) = Inr (int s')
           \<and> start \<le> s' \<and> s' \<le> hi
           \<and> (\<forall>m. start \<le> m \<and> m < s' \<longrightarrow> a ! m \<le> pivot)
           \<and> (s' = hi \<or> a ! s' > pivot)
           \<and> (a ! start \<le> pivot \<and> start < hi \<longrightarrow> start < s')"
  using assms
proof (induction "hi - start" arbitrary: start)
  case 0
  then have eq: "start = hi" by simp
  have "partition_scan_start a pivot (int hi) (int start) = Inr (int start)"
    using eq "0.prems"(2) by (simp add: partition_scan_start_unfold)
  then show ?case using eq by auto
next
  case (Suc d)
  then have lt: "start < hi" and d: "d = hi - Suc start" by simp_all
  have rd: "start < length a" using Suc.prems by simp
  show ?case
  proof (cases "a ! start \<le> pivot")
    case True
    have "Suc start \<le> hi" using lt by simp
    from Suc.hyps(1) [OF d this Suc.prems(2)]
    obtain s' where r: "partition_scan_start a pivot (int hi) (int (Suc start)) = Inr (int s')"
      "Suc start \<le> s'" "s' \<le> hi" "\<forall>m. Suc start \<le> m \<and> m < s' \<longrightarrow> a ! m \<le> pivot"
      "s' = hi \<or> a ! s' > pivot"
      by blast
    have "partition_scan_start a pivot (int hi) (int start) = Inr (int s')"
      using True lt r(1) by (simp add: partition_scan_start_unfold [OF rd])
    moreover have "\<forall>m. start \<le> m \<and> m < s' \<longrightarrow> a ! m \<le> pivot"
    proof (intro allI impI)
      fix m assume "start \<le> m \<and> m < s'"
      then consider "m = start" | "Suc start \<le> m \<and> m < s'" by linarith
      then show "a ! m \<le> pivot" using True r(4) by cases auto
    qed
    ultimately show ?thesis using r(2,3,5) by auto
  next
    case False
    have "partition_scan_start a pivot (int hi) (int start) = Inr (int start)"
      using False by (simp add: partition_scan_start_unfold [OF rd])
    then show ?thesis using False Suc.prems(1) by auto
  qed
qed

lemma partition_scan_end_correct:
  assumes "lo \<le> e" "e < length a" "a ! lo \<le> pivot"
  shows "\<exists>e'. partition_scan_end a pivot (int e) = Inr (int e')
           \<and> lo \<le> e' \<and> e' \<le> e
           \<and> (\<forall>m. e' < m \<and> m \<le> e \<longrightarrow> a ! m > pivot)
           \<and> a ! e' \<le> pivot"
  using assms
proof (induction "e - lo" arbitrary: e)
  case 0
  then have eq: "e = lo" by simp
  have "partition_scan_end a pivot (int e) = Inr (int e)"
    using eq "0.prems"(2,3) by (simp add: partition_scan_end_unfold)
  then show ?case using eq "0.prems"(3) by auto
next
  case (Suc d)
  then have lt: "lo < e" and d: "d = (e - 1) - lo" by simp_all
  have rd: "e < length a" using Suc.prems by simp
  show ?case
  proof (cases "a ! e > pivot")
    case True
    have "lo \<le> e - 1" "e - 1 < length a" using lt Suc.prems(2) by simp_all
    from Suc.hyps(1) [OF d this Suc.prems(3)]
    obtain e' where r: "partition_scan_end a pivot (int (e - 1)) = Inr (int e')"
      "lo \<le> e'" "e' \<le> e - 1" "\<forall>m. e' < m \<and> m \<le> e - 1 \<longrightarrow> a ! m > pivot" "a ! e' \<le> pivot"
      by blast
    have em: "int e - 1 = int (e - 1)" using lt by simp
    have "partition_scan_end a pivot (int e - 1) = Inr (int e')"
      using r(1) by (simp only: em)
    then have "partition_scan_end a pivot (int e) = Inr (int e')"
      using True by (simp add: partition_scan_end_unfold [OF rd])
    moreover have "\<forall>m. e' < m \<and> m \<le> e \<longrightarrow> a ! m > pivot"
    proof (intro allI impI)
      fix m assume "e' < m \<and> m \<le> e"
      then consider "m = e" | "e' < m \<and> m \<le> e - 1" by linarith
      then show "a ! m > pivot" using True r(4) by cases auto
    qed
    ultimately show ?thesis using r(2,3,5) by auto
  next
    case False
    have "partition_scan_end a pivot (int e) = Inr (int e)"
      using False by (simp add: partition_scan_end_unfold [OF rd])
    then show ?thesis using False Suc.prems(1) by auto
  qed
qed

lemma animateQuickSort_Nil: "animateQuickSort b [] = Inr b"
  by (simp add: animateQuickSort.simps)

lemma animateQuickSort_snoc:
  "animateQuickSort b (ms @ [m]) =
     (case (case m of SwapElement i j \<Rightarrow> swap b i j | SwapPivot i j \<Rightarrow> swap b i j) of
        Inl e \<Rightarrow> Inl e
      | Inr b' \<Rightarrow> animateQuickSort b' ms)"
  by (simp add: animateQuickSort.simps [of b "ms @ [m]"] cong: sum.case_cong)

lemma animateQuickSort_append:
  "animateQuickSort b (xs @ ys) =
     (case animateQuickSort b ys of
        Inl e \<Rightarrow> Inl e
      | Inr b' \<Rightarrow> animateQuickSort b' xs)"
proof (induction ys arbitrary: b rule: rev_induct)
  case Nil
  show ?case by (simp add: animateQuickSort_Nil)
next
  case (snoc m ys)
  have "animateQuickSort b (xs @ ys @ [m]) =
     (case (case m of SwapElement i j \<Rightarrow> swap b i j | SwapPivot i j \<Rightarrow> swap b i j) of
        Inl e \<Rightarrow> Inl e
      | Inr b' \<Rightarrow> animateQuickSort b' (xs @ ys))"
    using animateQuickSort_snoc [of b "xs @ ys" m] by simp
  then show ?case
    by (simp add: animateQuickSort_snoc snoc.IH split: sum.splits)
qed

lemma animateQuickSort_rev_append:
  assumes "animateQuickSort b (rev ms) = Inr b1" "animateQuickSort b1 (rev ms') = Inr b2"
  shows "animateQuickSort b (rev (ms @ ms')) = Inr b2"
  using assms by (simp add: animateQuickSort_append)

lemma animateQuickSort_swap:
  fixes b :: "'h bin list"
  assumes "i < length b" "j < length b" "m = SwapElement (int i) (int j) \<or> m = SwapPivot (int i) (int j)"
  shows "\<exists>b'. animateQuickSort b (rev [m]) = Inr b'
           \<and> map value b' = (map value b)[i := map value b ! j, j := map value b ! i]"
proof -
  have "animateQuickSort b (rev [m]) = Inr (b[i := b ! j, j := b ! i])"
    using animateQuickSort_snoc [of b "[]" m] swap_nat [OF assms(1,2)] assms(3)
    by (auto simp: animateQuickSort_Nil)
  moreover have "map value (b[i := b ! j, j := b ! i]) =
                 (map value b)[i := map value b ! j, j := map value b ! i]"
    using assms(1,2) by (simp add: map_update)
  ultimately show ?thesis by blast
qed


lemma partition_loop_unfold:
  assumes "partition_scan_start a pivot hi start = Inr s'"
      and "partition_scan_end a pivot e = Inr e'"
  shows "partition_loop (a, log) pivot hi start e =
         (if s' \<ge> e' then Some (Inr ((a, log), e'))
          else (case swap a s' e' of
                  Inl x \<Rightarrow> Some (Inl x)
                | Inr a1 \<Rightarrow> partition_loop (a1, log @ [SwapElement s' e']) pivot hi s' e'))"
  by (subst partition_loop.simps) (simp add: assms cong: sum.case_cong)

lemma partition_loop_correct:
  assumes "lo \<le> start" "start \<le> hi" "hi < length a" "lo \<le> e" "e \<le> hi"
      and "a ! lo = pivot" "a ! start \<le> pivot"
      and "\<forall>m. lo \<le> m \<and> m < start \<longrightarrow> a ! m \<le> pivot"
      and "\<forall>m. e < m \<and> m \<le> hi \<longrightarrow> a ! m > pivot"
  shows "\<exists>a' ms e'. partition_loop (a, log) pivot (int hi) (int start) (int e) =
             Some (Inr ((a', log @ ms), int e'))
           \<and> lo \<le> e' \<and> e' \<le> hi \<and> length a' = length a \<and> mset a' = mset a
           \<and> a' ! lo = pivot
           \<and> (\<forall>m. lo \<le> m \<and> m \<le> e' \<longrightarrow> a' ! m \<le> pivot)
           \<and> (\<forall>m. e' < m \<and> m \<le> hi \<longrightarrow> a' ! m > pivot)
           \<and> (\<forall>m. m < length a \<and> (m < lo \<or> hi < m) \<longrightarrow> a' ! m = a ! m)
           \<and> (\<forall>b :: 'h bin list. map value b = a \<longrightarrow>
                 (\<exists>b'. animateQuickSort b (rev ms) = Inr b' \<and> map value b' = a'))"
  using assms
proof (induction "hi - start" arbitrary: a log start e rule: less_induct)
  case less
  from partition_scan_start_correct [OF less.prems(2,3), where pivot = pivot]
  obtain s' where s: "partition_scan_start a pivot (int hi) (int start) = Inr (int s')"
    "start \<le> s'" "s' \<le> hi" "\<forall>m. start \<le> m \<and> m < s' \<longrightarrow> a ! m \<le> pivot"
    "s' = hi \<or> a ! s' > pivot" "a ! start \<le> pivot \<and> start < hi \<longrightarrow> start < s'"
    by blast
  have el: "e < length a" using less.prems(3,5) by simp
  have lop: "a ! lo \<le> pivot" using less.prems(6) by simp
  from partition_scan_end_correct [OF less.prems(4) el lop]
  obtain e' where e: "partition_scan_end a pivot (int e) = Inr (int e')"
    "lo \<le> e'" "e' \<le> e" "\<forall>m. e' < m \<and> m \<le> e \<longrightarrow> a ! m > pivot" "a ! e' \<le> pivot"
    by blast
  note unfold = partition_loop_unfold [OF s(1) e(1), of log]
  show ?case
  proof (cases "s' \<ge> e'")
    case True
    have res: "partition_loop (a, log) pivot (int hi) (int start) (int e) = Some (Inr ((a, log @ []), int e'))"
      using unfold True by simp
    have low: "\<forall>m. lo \<le> m \<and> m \<le> e' \<longrightarrow> a ! m \<le> pivot"
    proof (intro allI impI)
      fix m assume m: "lo \<le> m \<and> m \<le> e'"
      consider "m = e'" | "m < start" | "start \<le> m \<and> m < s'" using m True by linarith
      then show "a ! m \<le> pivot" using e(5) less.prems(8) s(4) m by cases auto
    qed
    have high: "\<forall>m. e' < m \<and> m \<le> hi \<longrightarrow> a ! m > pivot"
    proof (intro allI impI)
      fix m assume m: "e' < m \<and> m \<le> hi"
      consider "m \<le> e" | "e < m" by linarith
      then show "a ! m > pivot" using e(4) less.prems(9) m by cases auto
    qed
    have play: "\<forall>b :: 'h bin list. map value b = a \<longrightarrow>
                 (\<exists>b'. animateQuickSort b (rev []) = Inr b' \<and> map value b' = a)"
      by (simp add: animateQuickSort_Nil)
    have eh: "e' \<le> hi" using e(3) less.prems(5) by simp
    show ?thesis
    proof (intro exI conjI)
      show "partition_loop (a, log) pivot (int hi) (int start) (int e) = Some (Inr ((a, log @ []), int e'))"
        by fact
    qed (fact e(2) eh low high play less.prems(6) | simp)+
  next
    case False
    then have lt: "s' < e'" by simp
    then have shi: "s' < hi" using e(3) less.prems(5) by simp
    then have sgt: "a ! s' > pivot" using s(5) by simp
    have slo: "s' \<noteq> lo" using sgt less.prems(6) by auto
    have elo: "e' \<noteq> lo" using lt s(2) less.prems(1) by simp
    have sl: "s' < length a" and el': "e' < length a" using shi lt e(3) el less.prems(3) by simp_all
    let ?a = "a[s' := a ! e', e' := a ! s']"
    let ?m = "SwapElement (int s') (int e')"
    have sw: "swap a (int s') (int e') = Inr ?a" using sl el' by (rule swap_nat)
    have step: "partition_loop (a, log) pivot (int hi) (int start) (int e) =
                partition_loop (?a, log @ [?m]) pivot (int hi) (int s') (int e')"
      using unfold False sw by simp
    have "start < s'" using s(6) less.prems(7) shi s(2) by simp
    then have dec: "hi - s' < hi - start" using shi by simp
    have p1: "lo \<le> s'" using less.prems(1) s(2) by simp
    have p3: "hi < length ?a" using less.prems(3) by simp
    have p5: "e' \<le> hi" using e(3) less.prems(5) by simp
    have p6: "?a ! lo = pivot" using slo elo less.prems(6) by simp
    have p7: "?a ! s' \<le> pivot" using lt sl e(5) by simp
    have p8: "\<forall>m. lo \<le> m \<and> m < s' \<longrightarrow> ?a ! m \<le> pivot"
    proof (intro allI impI)
      fix m assume m: "lo \<le> m \<and> m < s'"
      then have "?a ! m = a ! m" using lt by simp
      moreover consider "m < start" | "start \<le> m \<and> m < s'" using m by linarith
      then have "a ! m \<le> pivot" using less.prems(8) s(4) m by cases auto
      ultimately show "?a ! m \<le> pivot" by simp
    qed
    have p9: "\<forall>m. e' < m \<and> m \<le> hi \<longrightarrow> ?a ! m > pivot"
    proof (intro allI impI)
      fix m assume m: "e' < m \<and> m \<le> hi"
      then have "?a ! m = a ! m" using lt by simp
      moreover consider "m \<le> e" | "e < m" by linarith
      then have "a ! m > pivot" using e(4) less.prems(9) m by cases auto
      ultimately show "?a ! m > pivot" by simp
    qed
    from less.hyps [OF dec p1 s(3) p3 e(2) p5 p6 p7 p8 p9, where log = "log @ [?m]"]
    obtain a' ms e'' where r: "partition_loop (?a, log @ [?m]) pivot (int hi) (int s') (int e') =
             Some (Inr ((a', (log @ [?m]) @ ms), int e''))"
      "lo \<le> e''" "e'' \<le> hi" "length a' = length ?a" "mset a' = mset ?a" "a' ! lo = pivot"
      "\<forall>m. lo \<le> m \<and> m \<le> e'' \<longrightarrow> a' ! m \<le> pivot"
      "\<forall>m. e'' < m \<and> m \<le> hi \<longrightarrow> a' ! m > pivot"
      "\<forall>m. m < length ?a \<and> (m < lo \<or> hi < m) \<longrightarrow> a' ! m = ?a ! m"
      "\<forall>b :: 'h bin list. map value b = ?a \<longrightarrow>
                 (\<exists>b'. animateQuickSort b (rev ms) = Inr b' \<and> map value b' = a')"
      by blast
    have res: "partition_loop (a, log) pivot (int hi) (int start) (int e) =
               Some (Inr ((a', log @ (?m # ms)), int e''))"
      using step r(1) by simp
    have len: "length a' = length a" using r(4) by simp
    have ms: "mset a' = mset a" using r(5) sl el' by (simp add: mset_swap)
    have out: "\<forall>m. m < length a \<and> (m < lo \<or> hi < m) \<longrightarrow> a' ! m = a ! m"
    proof (intro allI impI)
      fix m assume m: "m < length a \<and> (m < lo \<or> hi < m)"
      then have "m \<noteq> s'" "m \<noteq> e'" using p1 shi e(2) p5 by auto
      then have "?a ! m = a ! m" by simp
      then show "a' ! m = a ! m" using r(9) m by simp
    qed
    have play: "\<forall>b :: 'h bin list. map value b = a \<longrightarrow>
                 (\<exists>b'. animateQuickSort b (rev (?m # ms)) = Inr b' \<and> map value b' = a')"
    proof (intro allI impI)
      fix b :: "'h bin list" assume b: "map value b = a"
      then have lb: "length b = length a" by auto
      from animateQuickSort_swap [of s' b e' ?m] sl el' lb
      obtain b1 where b1: "animateQuickSort b (rev [?m]) = Inr b1"
        "map value b1 = (map value b)[s' := map value b ! e', e' := map value b ! s']"
        by auto
      have "map value b1 = ?a" using b1(2) by (simp only: b)
      with r(10) obtain b' where b': "animateQuickSort b1 (rev ms) = Inr b'" "map value b' = a'"
        by blast
      have "animateQuickSort b (rev ([?m] @ ms)) = Inr b'"
        using b1(1) b'(1) by (rule animateQuickSort_rev_append)
      then show "\<exists>b'. animateQuickSort b (rev (?m # ms)) = Inr b' \<and> map value b' = a'"
        using b'(2) by auto
    qed
    show ?thesis
    proof (intro exI conjI)
      show "partition_loop (a, log) pivot (int hi) (int start) (int e) =
               Some (Inr ((a', log @ (?m # ms)), int e''))" by fact
    qed (fact r(2) r(3) len ms r(6) r(7) r(8) out play)+
  qed
qed

lemma partition_correct_nat:
  assumes "lo \<le> hi" "hi < length a"
  shows "\<exists>a' ms p. partition (a, log) (int lo) (int hi) = Some (Inr ((a', log @ ms), int p))
           \<and> lo \<le> p \<and> p \<le> hi \<and> length a' = length a \<and> mset a' = mset a
           \<and> a' ! p = a ! lo
           \<and> (\<forall>m. lo \<le> m \<and> m < p \<longrightarrow> a' ! m \<le> a' ! p)
           \<and> (\<forall>m. p < m \<and> m \<le> hi \<longrightarrow> a' ! m > a' ! p)
           \<and> (\<forall>m. m < length a \<and> (m < lo \<or> hi < m) \<longrightarrow> a' ! m = a ! m)
           \<and> (\<forall>b :: 'h bin list. map value b = a \<longrightarrow>
                 (\<exists>b'. animateQuickSort b (rev ms) = Inr b' \<and> map value b' = a'))"
proof -
  define pivot where "pivot = a ! lo"
  have rd: "read a (int lo) = Inr pivot"
    using assms by (simp add: read_def in_range_def pivot_def)
  have "\<exists>a' ms e'. partition_loop (a, log) pivot (int hi) (int lo) (int hi) =
             Some (Inr ((a', log @ ms), int e'))
           \<and> lo \<le> e' \<and> e' \<le> hi \<and> length a' = length a \<and> mset a' = mset a
           \<and> a' ! lo = pivot
           \<and> (\<forall>m. lo \<le> m \<and> m \<le> e' \<longrightarrow> a' ! m \<le> pivot)
           \<and> (\<forall>m. e' < m \<and> m \<le> hi \<longrightarrow> a' ! m > pivot)
           \<and> (\<forall>m. m < length a \<and> (m < lo \<or> hi < m) \<longrightarrow> a' ! m = a ! m)
           \<and> (\<forall>b :: 'h bin list. map value b = a \<longrightarrow>
                 (\<exists>b'. animateQuickSort b (rev ms) = Inr b' \<and> map value b' = a'))"
    by (rule partition_loop_correct [where lo = lo and start = lo and e = hi and hi = hi
          and a = a and pivot = pivot and log = log]) (use assms in \<open>simp_all add: pivot_def\<close>)
  then obtain a1 ms e where r: "partition_loop (a, log) pivot (int hi) (int lo) (int hi) =
             Some (Inr ((a1, log @ ms), int e))"
      "lo \<le> e" "e \<le> hi" "length a1 = length a" "mset a1 = mset a" "a1 ! lo = pivot"
      "\<forall>m. lo \<le> m \<and> m \<le> e \<longrightarrow> a1 ! m \<le> pivot"
      "\<forall>m. e < m \<and> m \<le> hi \<longrightarrow> a1 ! m > pivot"
      "\<forall>m. m < length a \<and> (m < lo \<or> hi < m) \<longrightarrow> a1 ! m = a ! m"
      "\<forall>b :: 'h bin list. map value b = a \<longrightarrow>
                 (\<exists>b'. animateQuickSort b (rev ms) = Inr b' \<and> map value b' = a1)"
    by blast
  let ?a = "a1[lo := a1 ! e, e := a1 ! lo]"
  let ?m = "SwapPivot (int lo) (int e)"
  have ll: "lo < length a1" and el: "e < length a1" using assms r(3,4) by simp_all
  have sw: "swap a1 (int lo) (int e) = Inr ?a" using ll el by (rule swap_nat)
  have res: "partition (a, log) (int lo) (int hi) = Some (Inr ((?a, log @ (ms @ [?m])), int e))"
    using rd r(1) sw by (simp add: partition_def)
  have pe: "?a ! e = pivot" using el r(6) by simp
  have pl: "?a ! e = a ! lo" using pe by (simp add: pivot_def)
  have len: "length ?a = length a" using r(4) by simp
  have mse: "mset ?a = mset a" using r(5) ll el by (simp add: mset_swap)
  have low: "\<forall>m. lo \<le> m \<and> m < e \<longrightarrow> ?a ! m \<le> ?a ! e"
  proof (intro allI impI)
    fix m assume m: "lo \<le> m \<and> m < e"
    show "?a ! m \<le> ?a ! e"
    proof (cases "m = lo")
      case True
      then have "?a ! m = a1 ! e" using m ll by simp
      then show ?thesis using r(7) r(2) pe by simp
    next
      case False
      then have "?a ! m = a1 ! m" using m by simp
      then show ?thesis using r(7) m pe by simp
    qed
  qed
  have high: "\<forall>m. e < m \<and> m \<le> hi \<longrightarrow> ?a ! m > ?a ! e"
  proof (intro allI impI)
    fix m assume m: "e < m \<and> m \<le> hi"
    then have "?a ! m = a1 ! m" using r(2) by simp
    then show "?a ! m > ?a ! e" using r(8) m pe by simp
  qed
  have out: "\<forall>m. m < length a \<and> (m < lo \<or> hi < m) \<longrightarrow> ?a ! m = a ! m"
  proof (intro allI impI)
    fix m assume m: "m < length a \<and> (m < lo \<or> hi < m)"
    then have "m \<noteq> lo" "m \<noteq> e" using r(2,3) by auto
    then have "?a ! m = a1 ! m" by simp
    then show "?a ! m = a ! m" using r(9) m by simp
  qed
  have play: "\<forall>b :: 'h bin list. map value b = a \<longrightarrow>
                 (\<exists>b'. animateQuickSort b (rev (ms @ [?m])) = Inr b' \<and> map value b' = ?a)"
  proof (intro allI impI)
    fix b :: "'h bin list" assume b: "map value b = a"
    with r(10) obtain b1 where b1: "animateQuickSort b (rev ms) = Inr b1" "map value b1 = a1"
      by blast
    then have lb: "length b1 = length a1" by auto
    from animateQuickSort_swap [of lo b1 e ?m] ll el lb
    obtain b' where b': "animateQuickSort b1 (rev [?m]) = Inr b'"
      "map value b' = (map value b1)[lo := map value b1 ! e, e := map value b1 ! lo]"
      by auto
    have "map value b' = ?a" using b'(2) by (simp only: b1(2))
    moreover have "animateQuickSort b (rev (ms @ [?m])) = Inr b'"
      using b1(1) b'(1) by (rule animateQuickSort_rev_append)
    ultimately show "\<exists>b'. animateQuickSort b (rev (ms @ [?m])) = Inr b' \<and> map value b' = ?a"
      by blast
  qed
  show ?thesis
  proof (intro exI conjI)
    show "partition (a, log) (int lo) (int hi) = Some (Inr ((?a, log @ (ms @ [?m])), int e))"
      by fact
  qed (fact r(2) r(3) len mse pl low high out play)+
qed


lemma split_at_pivot:
  assumes "length a1 = length pre + n + length post"
      and "\<forall>m. m < length a1 \<and> (m < length pre \<or> length pre + n \<le> m) \<longrightarrow> a1 ! m = (pre @ xs @ post) ! m"
      and "length xs = n" "length pre \<le> p" "p < length pre + n"
  shows "\<exists>ls rs. a1 = pre @ ls @ a1 ! p # rs @ post
           \<and> length ls = p - length pre \<and> length rs = length pre + n - Suc p"
proof -
  let ?l = "length pre"
  define ls rs where "ls = take (p - ?l) (drop ?l a1)" and "rs = take (?l + n - Suc p) (drop (Suc p) a1)"
  have pl: "p < length a1" using assms(1,5) by simp
  have t: "take ?l a1 = pre"
  proof (rule nth_equalityI)
    show "length (take ?l a1) = length pre" using assms(1) by simp
    fix i assume "i < length (take ?l a1)"
    then have i: "i < ?l" by simp
    then have "a1 ! i = (pre @ xs @ post) ! i" using assms(1,2) by simp
    then show "take ?l a1 ! i = pre ! i" using i by (simp add: nth_append)
  qed
  have d: "drop (?l + n) a1 = post"
  proof (rule nth_equalityI)
    show "length (drop (?l + n) a1) = length post" using assms(1) by simp
    fix i assume "i < length (drop (?l + n) a1)"
    then have i: "i < length post" using assms(1) by simp
    then have "a1 ! (?l + n + i) = (pre @ xs @ post) ! (?l + n + i)" using assms(1,2) by simp
    also have "\<dots> = post ! i" using assms(3) by (simp add: nth_append)
    finally show "drop (?l + n) a1 ! i = post ! i" using assms(1) i by simp
  qed
  have "take p a1 = take (?l + (p - ?l)) a1" using assms(4) by simp
  also have "\<dots> = take ?l a1 @ take (p - ?l) (drop ?l a1)" by (rule take_add)
  finally have tp: "take p a1 = pre @ ls" using t by (simp add: ls_def)
  have "drop (Suc p) a1 = rs @ drop (?l + n - Suc p) (drop (Suc p) a1)"
    unfolding rs_def by (rule append_take_drop_id [symmetric])
  also have "drop (?l + n - Suc p) (drop (Suc p) a1) = drop (?l + n) a1"
  proof -
    have "?l + n - Suc p + Suc p = ?l + n" using assms(5) by simp
    then show ?thesis by (simp only: drop_drop)
  qed
  finally have dp: "drop (Suc p) a1 = rs @ post" using d by simp
  have "a1 = take p a1 @ a1 ! p # drop (Suc p) a1"
    using pl by (rule id_take_nth_drop)
  then have "a1 = pre @ ls @ a1 ! p # rs @ post" using tp dp by simp
  moreover have "length ls = p - ?l" using pl by (simp add: ls_def)
  moreover have "length rs = ?l + n - Suc p" using assms(1,5) by (simp add: rs_def)
  ultimately show ?thesis by blast
qed

lemma quickSort_done: "lo \<ge> hi \<Longrightarrow> quickSort s lo hi = Some (Inr s)"
  by (subst quickSort.simps) simp

lemma quickSort_unfold:
  assumes "lo < hi" "partition s lo hi = Some (Inr (s1, p))"
      and "quickSort s1 lo (p - 1) = Some (Inr s2)"
  shows "quickSort s lo hi = quickSort s2 (p + 1) hi"
  by (subst quickSort.simps) (use assms in simp)

lemma quickSort_decomposed:
  assumes "lo = int (length pre)" "hi = lo + int (length xs) - 1"
  shows "\<exists>ms. quickSort (pre @ xs @ post, log) lo hi = Some (Inr (pre @ sort xs @ post, log @ ms))
           \<and> (\<forall>b :: 'h bin list. map value b = pre @ xs @ post \<longrightarrow>
                 (\<exists>b'. animateQuickSort b (rev ms) = Inr b'
                       \<and> map value b' = pre @ sort xs @ post))"
  using assms
proof (induction "length xs" arbitrary: pre xs post log lo hi rule: less_induct)
  case less
  show ?case
  proof (cases "length xs \<le> 1")
    case True
    then have "lo \<ge> hi" using less.prems(2) by simp
    then have "quickSort (pre @ xs @ post, log) lo hi = Some (Inr (pre @ sort xs @ post, log @ []))"
      using True by (simp add: quickSort_done sort_short)
    moreover have "\<forall>b :: 'h bin list. map value b = pre @ xs @ post \<longrightarrow>
                 (\<exists>b'. animateQuickSort b (rev []) = Inr b'
                       \<and> map value b' = pre @ sort xs @ post)"
      using True by (simp add: animateQuickSort_Nil sort_short)
    ultimately show ?thesis by blast
  next
    case False
    define a where "a = pre @ xs @ post"
    define l where "l = length pre"
    define n where "n = length xs"
    define h where "h = l + n - 1"
    have n2: "2 \<le> n" using False by (simp add: n_def)
    have lo: "lo = int l" using less.prems(1) by (simp add: l_def)
    have hi: "hi = int h" using less.prems(2) n2 lo by (simp add: h_def n_def)
    have lohi: "lo < hi" using lo hi n2 by (simp add: h_def)
    have lh: "l \<le> h" "h < length a" using n2 by (simp_all add: h_def a_def l_def n_def)
    from partition_correct_nat [OF lh, where log = log and ?'h = 'h]
    obtain a1 ms1 p where r: "partition (a, log) (int l) (int h) = Some (Inr ((a1, log @ ms1), int p))"
      "l \<le> p" "p \<le> h" "length a1 = length a" "mset a1 = mset a"
      "\<forall>m. l \<le> m \<and> m < p \<longrightarrow> a1 ! m \<le> a1 ! p"
      "\<forall>m. p < m \<and> m \<le> h \<longrightarrow> a1 ! m > a1 ! p"
      "\<forall>m. m < length a \<and> (m < l \<or> h < m) \<longrightarrow> a1 ! m = a ! m"
      "\<forall>b :: 'h bin list. map value b = a \<longrightarrow>
                 (\<exists>b'. animateQuickSort b (rev ms1) = Inr b' \<and> map value b' = a1)"
      by (elim exE conjE) (rule that; assumption)
    have len1: "length a1 = length pre + n + length post"
      using r(4) by (simp add: a_def n_def)
    have out1: "\<forall>m. m < length a1 \<and> (m < length pre \<or> length pre + n \<le> m) \<longrightarrow>
                  a1 ! m = (pre @ xs @ post) ! m"
    proof (intro allI impI)
      fix m assume m: "m < length a1 \<and> (m < length pre \<or> length pre + n \<le> m)"
      then have "m < length a \<and> (m < l \<or> h < m)"
        using r(4) n2 unfolding l_def h_def by linarith
      then have "a1 ! m = a ! m" using r(8) by blast
      then show "a1 ! m = (pre @ xs @ post) ! m" by (simp only: a_def)
    qed
    have pin: "length pre \<le> p" "p < length pre + n"
      using r(2,3) n2 by (simp_all add: l_def h_def)
    have nx: "length xs = n" by (simp add: n_def)
    from split_at_pivot [OF len1 out1 nx pin]
    obtain ls rs where d: "a1 = pre @ ls @ a1 ! p # rs @ post"
      "length ls = p - length pre" "length rs = length pre + n - Suc p"
      by blast
    define pv where "pv = a1 ! p"
    have a1: "a1 = pre @ ls @ pv # rs @ post" using d(1) by (simp add: pv_def)
    have pidx: "p = length pre + length ls" using d(2) pin by simp
    have ls_le: "\<forall>x\<in>set ls. x \<le> pv"
    proof
      fix x assume "x \<in> set ls"
      then obtain m where m: "m < length ls" "x = ls ! m" by (auto simp: in_set_conv_nth)
      have "a1 ! (length pre + m) = ls ! m"
        using m(1) by (subst a1) (simp add: nth_append)
      moreover have "a1 ! (length pre + m) \<le> a1 ! p"
        using r(6) m(1) pidx by (simp add: l_def)
      ultimately show "x \<le> pv" using m(2) by (simp add: pv_def)
    qed
    have rs_ge: "\<forall>x\<in>set rs. pv \<le> x"
    proof
      fix x assume "x \<in> set rs"
      then obtain m where m: "m < length rs" "x = rs ! m" by (auto simp: in_set_conv_nth)
      have "a1 ! (Suc p + m) = rs ! m"
        using m(1) pidx by (subst a1) (simp add: nth_append)
      moreover have "a1 ! (Suc p + m) > a1 ! p"
        using r(7) m(1) d(3) by (simp add: l_def h_def)
      ultimately show "pv \<le> x" using m(2) by (simp add: pv_def)
    qed
    have "mset (pre @ ls @ pv # rs @ post) = mset (pre @ xs @ post)"
      using r(5) a1 by (simp add: a_def)
    then have ms_xs: "mset (ls @ pv # rs) = mset xs" by simp
    have sorted_xs: "sort ls @ pv # sort rs = sort xs"
    proof (rule properties_for_sort [symmetric])
      show "mset (sort ls @ pv # sort rs) = mset xs" using ms_xs by simp
      show "sorted (sort ls @ pv # sort rs)"
        using ls_le rs_ge by (fastforce simp: sorted_append)
    qed
    have smaller: "length ls < length xs" "length rs < length xs"
      using d(2,3) pin by (simp_all add: n_def)
    have hi1: "int p - 1 = lo + int (length ls) - 1"
      using pidx less.prems(1) by simp
    from less.hyps [OF smaller(1) less.prems(1) hi1, where post = "pv # rs @ post" and log = "log @ ms1"]
    obtain ms2 where q1: "quickSort (pre @ ls @ pv # rs @ post, log @ ms1) lo (int p - 1) =
          Some (Inr (pre @ sort ls @ pv # rs @ post, (log @ ms1) @ ms2))"
      "\<forall>b :: 'h bin list. map value b = pre @ ls @ pv # rs @ post \<longrightarrow>
                 (\<exists>b'. animateQuickSort b (rev ms2) = Inr b'
                       \<and> map value b' = pre @ sort ls @ pv # rs @ post)"
      by blast
    have lo2: "int p + 1 = int (length (pre @ sort ls @ [pv]))" using pidx by simp
    have hi2: "hi = int p + 1 + int (length rs) - 1"
      using d(3) pin hi by (simp add: h_def l_def)
    from less.hyps [OF smaller(2) lo2 hi2, where post = post and log = "(log @ ms1) @ ms2"]
    obtain ms3 where q2: "quickSort ((pre @ sort ls @ [pv]) @ rs @ post, (log @ ms1) @ ms2) (int p + 1) hi =
          Some (Inr ((pre @ sort ls @ [pv]) @ sort rs @ post, ((log @ ms1) @ ms2) @ ms3))"
      "\<forall>b :: 'h bin list. map value b = (pre @ sort ls @ [pv]) @ rs @ post \<longrightarrow>
                 (\<exists>b'. animateQuickSort b (rev ms3) = Inr b'
                       \<and> map value b' = (pre @ sort ls @ [pv]) @ sort rs @ post)"
      by blast
    have part: "partition (pre @ xs @ post, log) lo hi = Some (Inr ((a1, log @ ms1), int p))"
      using r(1) lo hi by (simp add: a_def)
    have q1': "quickSort (a1, log @ ms1) lo (int p - 1) =
          Some (Inr (pre @ sort ls @ pv # rs @ post, (log @ ms1) @ ms2))"
      using q1(1) by (simp only: a1 [symmetric])
    have "quickSort (pre @ xs @ post, log) lo hi =
          quickSort (pre @ sort ls @ pv # rs @ post, (log @ ms1) @ ms2) (int p + 1) hi"
      using lohi part q1' by (rule quickSort_unfold)
    then have res: "quickSort (pre @ xs @ post, log) lo hi =
          Some (Inr (pre @ sort xs @ post, log @ (ms1 @ ms2 @ ms3)))"
      using q2(1) sorted_xs [symmetric] by simp
    have play: "\<forall>b :: 'h bin list. map value b = pre @ xs @ post \<longrightarrow>
                 (\<exists>b'. animateQuickSort b (rev (ms1 @ ms2 @ ms3)) = Inr b'
                       \<and> map value b' = pre @ sort xs @ post)"
    proof (intro allI impI)
      fix b :: "'h bin list" assume "map value b = pre @ xs @ post"
      then have "map value b = a" by (simp add: a_def)
      with r(9) obtain b1 where b1: "animateQuickSort b (rev ms1) = Inr b1" "map value b1 = a1"
        by blast
      then have "map value b1 = pre @ ls @ pv # rs @ post" using a1 by simp
      with q1(2) obtain b2 where b2: "animateQuickSort b1 (rev ms2) = Inr b2"
        "map value b2 = pre @ sort ls @ pv # rs @ post" by blast
      then have "map value b2 = (pre @ sort ls @ [pv]) @ rs @ post" by simp
      with q2(2) obtain b3 where b3: "animateQuickSort b2 (rev ms3) = Inr b3"
        "map value b3 = (pre @ sort ls @ [pv]) @ sort rs @ post" by blast
      have "animateQuickSort b (rev (ms1 @ ms2)) = Inr b2"
        using b1(1) b2(1) by (rule animateQuickSort_rev_append)
      then have "animateQuickSort b (rev ((ms1 @ ms2) @ ms3)) = Inr b3"
        using b3(1) by (rule animateQuickSort_rev_append)
      moreover have "map value b3 = pre @ sort xs @ post"
        using b3(2) sorted_xs [symmetric] by simp
      ultimately show "\<exists>b'. animateQuickSort b (rev (ms1 @ ms2 @ ms3)) = Inr b'
                       \<and> map value b' = pre @ sort xs @ post"
        by simp
    qed
    show ?thesis
    proof (intro exI conjI)
      show "quickSort (pre @ xs @ post, log) lo hi =
          Some (Inr (pre @ sort xs @ post, log @ (ms1 @ ms2 @ ms3)))" by fact
    qed (fact play)
  qed
qed

lemma quickSort_replay:
  fixes b :: "'h bin list"
  assumes "map value b = a"
  shows "\<exists>ms b'. quickSort (a, []) 0 (int (length a) - 1) = Some (Inr (sort a, ms))
           \<and> animateQuickSort b (rev ms) = Inr b' \<and> map value b' = sort a"
proof -
  from quickSort_decomposed [of 0 "[]" "int (length a) - 1" a "[]" "[]", where ?'h = 'h]
  obtain ms where r: "quickSort (a, []) 0 (int (length a) - 1) = Some (Inr (sort a, ms))"
    "\<forall>b :: 'h bin list. map value b = a \<longrightarrow>
         (\<exists>b'. animateQuickSort b (rev ms) = Inr b' \<and> map value b' = sort a)"
    by auto
  then show ?thesis using assms by blast
qed


lemma whole_decompose:
  assumes "0 \<le> lo" "lo \<le> hi + 1" "hi < int (length a)"
  shows "a = take (nat lo) a @ slice a lo hi @ drop (nat (hi + 1)) a"
    and "lo = int (length (take (nat lo) a))"
    and "hi = lo + int (length (slice a lo hi)) - 1"
proof -
  have e: "slice a (hi + 1) hi = []" by (simp add: slice_def)
  note d = slices_decompose [OF assms(1,2) order_refl assms(3)]
  show "a = take (nat lo) a @ slice a lo hi @ drop (nat (hi + 1)) a"
    using d(1) e by simp
  show "lo = int (length (take (nat lo) a))" using d(2) assms(1) by simp
  show "hi = lo + int (length (slice a lo hi)) - 1" using d(3) assms(2) by simp
qed

lemma unchanged_outside:
  assumes "length a' = length a" "l \<le> h" "h < length a"
      and "\<forall>m. m < length a \<and> (m < l \<or> h < m) \<longrightarrow> a' ! m = a ! m"
  shows "take l a' = take l a" and "drop (Suc h) a' = drop (Suc h) a"
proof -
  show "take l a' = take l a"
    using assms by (intro nth_equalityI) simp_all
  show "drop (Suc h) a' = drop (Suc h) a"
    using assms by (intro nth_equalityI) simp_all
qed

text \<open>
  Claim C2. For indices \<open>0 \<le> lo \<le> hi\<close> within the array, \<open>partition(array, lo, hi)\<close>
  returns an index \<open>p\<close> with \<open>lo \<le> p \<le> hi\<close>; afterwards every element at an index in
  \<open>lo .. p - 1\<close> is at most \<open>array[p]\<close>, every element at an index in \<open>p + 1 .. hi\<close> is at
  least \<open>array[p]\<close>, and \<open>array[p]\<close> is the pivot, the element that was at \<open>lo\<close>. The
  array is a permutation of the array before the call: the elements at \<open>lo .. hi\<close> are a
  permutation of those that were there, and the elements outside \<open>lo .. hi\<close> are unchanged.
\<close>

theorem partition_places_pivot:
  assumes "0 \<le> lo" "lo \<le> hi" "hi < int (length a)"
  shows "\<exists>a' ms p. partition (a, log) lo hi = Some (Inr ((a', log @ ms), p))
           \<and> lo \<le> p \<and> p \<le> hi
           \<and> (\<forall>k. lo \<le> k \<and> k \<le> p - 1 \<longrightarrow> a' ! nat k \<le> a' ! nat p)
           \<and> (\<forall>k. p + 1 \<le> k \<and> k \<le> hi \<longrightarrow> a' ! nat p \<le> a' ! nat k)
           \<and> a' ! nat p = a ! nat lo
           \<and> length a' = length a \<and> mset a' = mset a
           \<and> mset (slice a' lo hi) = mset (slice a lo hi)
           \<and> take (nat lo) a' = take (nat lo) a
           \<and> drop (nat (hi + 1)) a' = drop (nat (hi + 1)) a"
proof -
  define l h where "l = nat lo" and "h = nat hi"
  have lo: "lo = int l" and hi: "hi = int h" using assms by (simp_all add: l_def h_def)
  have lh: "l \<le> h" "h < length a" using assms by (simp_all add: l_def h_def)
  from partition_correct_nat [OF lh, where log = log and ?'h = unit]
  obtain a' ms p where r: "partition (a, log) (int l) (int h) = Some (Inr ((a', log @ ms), int p))"
      "l \<le> p" "p \<le> h" "length a' = length a" "mset a' = mset a" "a' ! p = a ! l"
      "\<forall>m. l \<le> m \<and> m < p \<longrightarrow> a' ! m \<le> a' ! p"
      "\<forall>m. p < m \<and> m \<le> h \<longrightarrow> a' ! m > a' ! p"
      "\<forall>m. m < length a \<and> (m < l \<or> h < m) \<longrightarrow> a' ! m = a ! m"
    by (elim exE conjE) (rule that; assumption)
  note u = unchanged_outside [OF r(4) lh r(9)]
  have t: "take (nat lo) a' = take (nat lo) a" using u(1) by (simp add: l_def)
  have sh: "nat (hi + 1) = Suc h" using assms by (simp add: h_def)
  have d: "drop (nat (hi + 1)) a' = drop (nat (hi + 1)) a" using u(2) sh by simp
  have le: "lo \<le> hi + 1" using assms(2) by simp
  have hi': "hi < int (length a')" using assms(3) r(4) by simp
  have "mset (take (nat lo) a' @ slice a' lo hi @ drop (nat (hi + 1)) a') =
        mset (take (nat lo) a @ slice a lo hi @ drop (nat (hi + 1)) a)"
    using whole_decompose(1) [OF assms(1) le assms(3)] whole_decompose(1) [OF assms(1) le hi'] r(5)
    by simp
  then have sl: "mset (slice a' lo hi) = mset (slice a lo hi)"
    using t d by simp
  have low: "\<forall>k. lo \<le> k \<and> k \<le> int p - 1 \<longrightarrow> a' ! nat k \<le> a' ! nat (int p)"
  proof (intro allI impI)
    fix k assume "lo \<le> k \<and> k \<le> int p - 1"
    then have "l \<le> nat k \<and> nat k < p" using lo by linarith
    then show "a' ! nat k \<le> a' ! nat (int p)" using r(7) by simp
  qed
  have high: "\<forall>k. int p + 1 \<le> k \<and> k \<le> hi \<longrightarrow> a' ! nat (int p) \<le> a' ! nat k"
  proof (intro allI impI)
    fix k assume "int p + 1 \<le> k \<and> k \<le> hi"
    then have "p < nat k \<and> nat k \<le> h" using hi by linarith
    then have "a' ! nat k > a' ! p" using r(8) by simp
    then show "a' ! nat (int p) \<le> a' ! nat k" by simp
  qed
  have res: "partition (a, log) lo hi = Some (Inr ((a', log @ ms), int p))"
    using r(1) lo hi by simp
  have piv: "a' ! nat (int p) = a ! nat lo" using r(6) by (simp add: l_def)
  have b1: "lo \<le> int p" and b2: "int p \<le> hi" using r(2,3) lo hi by simp_all
  show ?thesis
  proof (intro exI conjI)
    show "partition (a, log) lo hi = Some (Inr ((a', log @ ms), int p))" by fact
  qed (fact b1 b2 low high piv r(4) r(5) sl t d)+
qed

theorem partition_places_pivot_witness:
  "\<exists>a' ms p. partition ([3, 5, 1, 4, 2], []) 0 4 = Some (Inr ((a', [] @ ms), p))
           \<and> 0 \<le> p \<and> p \<le> 4
           \<and> (\<forall>k. 0 \<le> k \<and> k \<le> p - 1 \<longrightarrow> a' ! nat k \<le> a' ! nat p)
           \<and> (\<forall>k. p + 1 \<le> k \<and> k \<le> 4 \<longrightarrow> a' ! nat p \<le> a' ! nat k)
           \<and> a' ! nat p = [3, 5, 1, 4, 2] ! nat 0
           \<and> length a' = length [3, 5, 1, 4, 2 :: int] \<and> mset a' = mset [3, 5, 1, 4, 2]
           \<and> mset (slice a' 0 4) = mset (slice [3, 5, 1, 4, 2] 0 4)
           \<and> take (nat 0) a' = take (nat 0) [3, 5, 1, 4, 2]
           \<and> drop (nat (4 + 1)) a' = drop (nat (4 + 1)) [3, 5, 1, 4, 2]"
  by (rule partition_places_pivot) simp_all

text \<open>
  Claim C3. For indices \<open>0 \<le> lo \<le> hi\<close> within the array (whatever its contents: sorted,
  reverse-sorted, with repeated elements), \<open>partition\<close> returns, with an index \<open>p\<close> such
  that \<open>lo \<le> p \<le> hi\<close>, so that both ranges \<open>lo .. p - 1\<close> and \<open>p + 1 .. hi\<close> of the
  recursive calls are strictly smaller than \<open>lo .. hi\<close>; \<open>quickSort\<close> returns; and the two
  scan loops return a cursor inside the range: the low cursor, started anywhere in
  \<open>lo .. hi\<close>, stops at or before \<open>hi\<close>, and the high cursor, started anywhere in
  \<open>lo .. hi\<close> with a pivot that is at least \<open>array[lo]\<close>, stops at or after \<open>lo\<close>.
\<close>

theorem partition_and_quickSort_terminate:
  assumes "0 \<le> lo" "lo \<le> hi" "hi < int (length a)"
  shows "(\<exists>a' log' p. partition (a, log) lo hi = Some (Inr ((a', log'), p))
            \<and> lo \<le> p \<and> p \<le> hi \<and> length a' = length a
            \<and> (p - 1) - lo < hi - lo \<and> hi - (p + 1) < hi - lo)
       \<and> (\<exists>a'' log''. quickSort (a, log) lo hi = Some (Inr (a'', log'')) \<and> length a'' = length a)
       \<and> (\<forall>pivot start. lo \<le> start \<and> start \<le> hi \<longrightarrow>
             (\<exists>s'. partition_scan_start a pivot hi start = Inr s' \<and> start \<le> s' \<and> s' \<le> hi))
       \<and> (\<forall>pivot e. lo \<le> e \<and> e \<le> hi \<and> a ! nat lo \<le> pivot \<longrightarrow>
             (\<exists>e'. partition_scan_end a pivot e = Inr e' \<and> lo \<le> e' \<and> e' \<le> e))"
proof (intro conjI allI impI)
  define l h where "l = nat lo" and "h = nat hi"
  have lo: "lo = int l" and hi: "hi = int h" using assms by (simp_all add: l_def h_def)
  have lh: "l \<le> h" "h < length a" using assms by (simp_all add: l_def h_def)
  from partition_correct_nat [OF lh, where log = log and ?'h = unit]
  obtain a' ms p where r: "partition (a, log) (int l) (int h) = Some (Inr ((a', log @ ms), int p))"
      "l \<le> p" "p \<le> h" "length a' = length a"
    by (elim exE conjE) (rule that; assumption)
  have "partition (a, log) lo hi = Some (Inr ((a', log @ ms), int p))"
    using r(1) lo hi by simp
  moreover have "lo \<le> int p" "int p \<le> hi" using r(2,3) lo hi by simp_all
  ultimately show "\<exists>a' log' p. partition (a, log) lo hi = Some (Inr ((a', log'), p))
            \<and> lo \<le> p \<and> p \<le> hi \<and> length a' = length a
            \<and> (p - 1) - lo < hi - lo \<and> hi - (p + 1) < hi - lo"
    using r(4) by (intro exI [of _ a'] exI [of _ "log @ ms"] exI [of _ "int p"]) simp
next
  have le: "lo \<le> hi + 1" using assms(2) by simp
  note w = whole_decompose [OF assms(1) le assms(3)]
  let ?pre = "take (nat lo) a" and ?xs = "slice a lo hi" and ?post = "drop (nat (hi + 1)) a"
  from quickSort_decomposed [OF w(2,3), where post = ?post and log = log and ?'h = unit]
  obtain ms where "quickSort (?pre @ ?xs @ ?post, log) lo hi =
      Some (Inr (?pre @ sort ?xs @ ?post, log @ ms))"
    by blast
  then have "quickSort (a, log) lo hi = Some (Inr (?pre @ sort ?xs @ ?post, log @ ms))"
    using w(1) by simp
  moreover have "length (?pre @ sort ?xs @ ?post) = length a"
    using arg_cong [OF w(1), of length] by simp
  ultimately show "\<exists>a'' log''. quickSort (a, log) lo hi = Some (Inr (a'', log'')) \<and> length a'' = length a"
    by blast
next
  fix pivot start assume s: "lo \<le> start \<and> start \<le> hi"
  have "nat start \<le> nat hi" "nat hi < length a" using s assms by linarith+
  from partition_scan_start_correct [OF this, where pivot = pivot]
  obtain s' where r: "partition_scan_start a pivot (int (nat hi)) (int (nat start)) = Inr (int s')"
    "nat start \<le> s'" "s' \<le> nat hi"
    by blast
  have c: "int (nat hi) = hi" "int (nat start) = start" using s assms by linarith+
  have "start \<le> int s'" "int s' \<le> hi" using r(2,3) s assms by linarith+
  moreover have "partition_scan_start a pivot hi start = Inr (int s')"
    using r(1) by (simp only: c)
  ultimately have "partition_scan_start a pivot hi start = Inr (int s') \<and> start \<le> int s' \<and> int s' \<le> hi"
    by simp
  then show "\<exists>s'. partition_scan_start a pivot hi start = Inr s' \<and> start \<le> s' \<and> s' \<le> hi"
    by blast
next
  fix pivot e assume e: "lo \<le> e \<and> e \<le> hi \<and> a ! nat lo \<le> pivot"
  have "nat lo \<le> nat e" "nat e < length a" "a ! nat lo \<le> pivot" using e assms by linarith+
  from partition_scan_end_correct [OF this]
  obtain e' where r: "partition_scan_end a pivot (int (nat e)) = Inr (int e')"
    "nat lo \<le> e'" "e' \<le> nat e"
    by blast
  have c: "int (nat e) = e" using e assms by linarith
  have "lo \<le> int e'" "int e' \<le> e" using r(2,3) e assms by linarith+
  moreover have "partition_scan_end a pivot e = Inr (int e')"
    using r(1) by (simp only: c)
  ultimately have "partition_scan_end a pivot e = Inr (int e') \<and> lo \<le> int e' \<and> int e' \<le> e"
    by simp
  then show "\<exists>e'. partition_scan_end a pivot e = Inr e' \<and> lo \<le> e' \<and> e' \<le> e"
    by blast
qed

theorem partition_and_quickSort_terminate_witness:
  "(\<exists>a' log' p. partition ([2, 1, 2, 3, 1], []) 0 4 = Some (Inr ((a', log'), p))
            \<and> 0 \<le> p \<and> p \<le> 4 \<and> length a' = length [2, 1, 2, 3, 1 :: int]
            \<and> (p - 1) - 0 < 4 - 0 \<and> 4 - (p + 1) < 4 - 0)
       \<and> (\<exists>a'' log''. quickSort ([2, 1, 2, 3, 1], []) 0 4 = Some (Inr (a'', log''))
             \<and> length a'' = length [2, 1, 2, 3, 1 :: int])
       \<and> (\<exists>s'. partition_scan_start [2, 1, 2, 3, 1] 2 4 0 = Inr s' \<and> 0 \<le> s' \<and> s' \<le> 4)
       \<and> (\<exists>e'. partition_scan_end [2, 1, 2, 3, 1] 2 4 = Inr e' \<and> 0 \<le> e' \<and> e' \<le> 4)"
proof -
  have t: "(\<exists>a' log' p. partition ([2, 1, 2, 3, 1], []) 0 4 = Some (Inr ((a', log'), p))
            \<and> 0 \<le> p \<and> p \<le> 4 \<and> length a' = length [2, 1, 2, 3, 1 :: int]
            \<and> (p - 1) - 0 < 4 - 0 \<and> 4 - (p + 1) < 4 - 0)
       \<and> (\<exists>a'' log''. quickSort ([2, 1, 2, 3, 1], []) 0 4 = Some (Inr (a'', log''))
             \<and> length a'' = length [2, 1, 2, 3, 1 :: int])
       \<and> (\<forall>pivot start. 0 \<le> start \<and> start \<le> 4 \<longrightarrow>
             (\<exists>s'. partition_scan_start [2, 1, 2, 3, 1] pivot 4 start = Inr s' \<and> start \<le> s' \<and> s' \<le> 4))
       \<and> (\<forall>pivot e. 0 \<le> e \<and> e \<le> 4 \<and> [2, 1, 2, 3, 1] ! nat 0 \<le> pivot \<longrightarrow>
             (\<exists>e'. partition_scan_end [2, 1, 2, 3, 1] pivot e = Inr e' \<and> 0 \<le> e' \<and> e' \<le> e))"
    by (rule partition_and_quickSort_terminate) simp_all
  note c1 = t [THEN conjunct1]
  note c2 = t [THEN conjunct2, THEN conjunct1]
  note c3 = t [THEN conjunct2, THEN conjunct2, THEN conjunct1, rule_format, of 0 2]
  note c4 = t [THEN conjunct2, THEN conjunct2, THEN conjunct2, rule_format, of 4 2]
  have "\<exists>s'. partition_scan_start [2, 1, 2, 3, 1] 2 4 0 = Inr s' \<and> 0 \<le> s' \<and> s' \<le> 4"
    using c3 by simp
  moreover have "\<exists>e'. partition_scan_end [2, 1, 2, 3, 1] 2 4 = Inr e' \<and> 0 \<le> e' \<and> e' \<le> 4"
    using c4 by simp
  ultimately show ?thesis using c1 c2 by (intro conjI)
qed

section \<open>Arrays of length 0 and 1\<close>

lemma countingSort_single:
  assumes "0 \<le> v"
  shows "countingSort ([v], log) = Inr ([v], log @ [IndexNewValue (Index 0) v])"
proof -
  have "\<forall>x\<in>set [v]. 0 \<le> x" using assms by simp
  from countingSort_sorts [OF this, of log]
  show ?thesis by (simp add: placements_def stable_position_def)
qed

lemma countingSort_empty: "countingSort ([], log) = Inr ([], log)"
  using countingSort_sorts [of "[]" log] by (simp add: placements_def)

text \<open>
  Claim C6, as amended. On an array of length 0 or 1, \<open>bubbleSort\<close>, \<open>mergeSort\<close> and
  \<open>quickSort\<close> return without failure, leave the array unchanged and record no move.
  \<open>countingSort\<close> does the same on the empty array; on a one-element array \<open>[v]\<close> with
  \<open>v\<close> not negative it returns without failure and leaves the array unchanged, but records
  exactly one move \<open>{index: 0, newValue: v}\<close>: it records one move for each placement.
\<close>

theorem short_arrays_are_left_alone:
  assumes "length a \<le> 1"
  shows "bubbleSort (a, log1) = Inr (a, log1)
       \<and> mergeSort (a, aux, log2) 0 (int (length a) - 1) = Inr (a, aux, log2)
       \<and> quickSort (a, log3) 0 (int (length a) - 1) = Some (Inr (a, log3))
       \<and> (a = [] \<longrightarrow> countingSort (a, log4) = Inr (a, log4))
       \<and> (\<forall>v. a = [v] \<and> 0 \<le> v \<longrightarrow>
             countingSort (a, log4) = Inr (a, log4 @ [IndexNewValue (Index 0) v]))"
proof (intro conjI allI impI)
  have "int (length a) - 1 \<le> 0" using assms by simp
  then show "bubbleSort (a, log1) = Inr (a, log1)"
    by (simp add: bubbleSort_def bubbleSort_loop.simps)
  show "mergeSort (a, aux, log2) 0 (int (length a) - 1) = Inr (a, aux, log2)"
    using assms by (intro mergeSort_done) simp
  show "quickSort (a, log3) 0 (int (length a) - 1) = Some (Inr (a, log3))"
    using assms by (intro quickSort_done) simp
next
  assume "a = []"
  then show "countingSort (a, log4) = Inr (a, log4)" by (simp add: countingSort_empty)
next
  fix v assume "a = [v] \<and> 0 \<le> v"
  then show "countingSort (a, log4) = Inr (a, log4 @ [IndexNewValue (Index 0) v])"
    by (simp add: countingSort_single)
qed

theorem short_arrays_are_left_alone_witness:
  "bubbleSort ([7], []) = Inr ([7], [])
       \<and> mergeSort ([7], Map.empty, []) 0 (int (length [7 :: int]) - 1) = Inr ([7], Map.empty, [])
       \<and> quickSort ([7], []) 0 (int (length [7 :: int]) - 1) = Some (Inr ([7], []))
       \<and> countingSort ([7], []) = Inr ([7], [] @ [IndexNewValue (Index 0) 7])"
proof -
  have l: "length [7 :: int] \<le> 1" by simp
  note t = short_arrays_are_left_alone [OF l, of "[]" Map.empty "[]" "[]" "[]"]
  note c1 = t [THEN conjunct1]
  note c2 = t [THEN conjunct2, THEN conjunct1]
  note c3 = t [THEN conjunct2, THEN conjunct2, THEN conjunct1]
  note c5 = t [THEN conjunct2, THEN conjunct2, THEN conjunct2, THEN conjunct2, rule_format, of 7]
  have "countingSort ([7], []) = Inr ([7], [] @ [IndexNewValue (Index 0) 7])"
    using c5 by simp
  then show ?thesis using c1 c2 c3 by (intro conjI)
qed

text \<open>
  On a one-element array \<open>countingSort\<close> records the placement of that element.
\<close>

theorem countingSort_single_records_a_move:
  "countingSort ([5], []) = Inr ([5], [IndexNewValue (Index 0) 5])
   \<and> countingSort ([5], []) \<noteq> Inr ([5], [])"
  using countingSort_single [of 5 "[]"] by simp


section \<open>Replaying the recorded moves sorts the display\<close>

lemma onOptionClicked_bubble:
  "onOptionClicked hs cs ''Bubble Sort'' (a, bins) =
     (case bubbleSort (a, []) of
        Inl e \<Rightarrow> Some (Inl e)
      | Inr (array, animations) \<Rightarrow>
          Some (map_sum id (Pair array) (bubbleSortAnimation bins (rev animations))))"
  by (simp add: onOptionClicked_def)

lemma onOptionClicked_merge:
  "onOptionClicked hs cs ''Merge Sort'' (a, bins) =
     (case mergeSort (a, Map.empty, []) 0 (int (length a) - 1) of
        Inl e \<Rightarrow> Some (Inl e)
      | Inr (array, aux, animations) \<Rightarrow>
          Some (map_sum id (Pair array) (animateMergeSort hs cs bins (rev animations))))"
  by (simp add: onOptionClicked_def)

lemma onOptionClicked_counting:
  "onOptionClicked hs cs ''Counting Sort'' (a, bins) =
     (case countingSort (a, []) of
        Inl e \<Rightarrow> Some (Inl e)
      | Inr (array, animations) \<Rightarrow>
          Some (map_sum id (Pair array) (animateCountingSort hs cs bins (rev animations))))"
  by (simp add: onOptionClicked_def)

lemma onOptionClicked_quick:
  "onOptionClicked hs cs ''Quick Sort'' (a, bins) =
     (case quickSort (a, []) 0 (int (length a) - 1) of
        None \<Rightarrow> None
      | Some (Inl e) \<Rightarrow> Some (Inl e)
      | Some (Inr (array, animations)) \<Rightarrow>
          Some (map_sum id (Pair array) (animateQuickSort bins (rev animations))))"
  by (simp add: onOptionClicked_def)

text \<open>
  Claim C1, as amended. For every array of integers of length \<open>N \<ge> 0\<close> and a display that
  holds the same values, \<open>bubbleSort\<close>, \<open>mergeSort\<close> and \<open>quickSort\<close> return, the array
  is then the ascending sort of the input (the reference \<open>sort\<close>), and replaying the
  recorded moves in emission order against the display as it stood before the sort yields
  exactly these sorted values; \<open>onOptionClicked\<close> returns both. The same holds for
  \<open>countingSort\<close> when no element of the array is negative.
\<close>

theorem replayed_moves_sort_the_display:
  fixes bins :: "'h bin list"
  assumes "map value bins = a"
  shows "(\<exists>ms b'. bubbleSort (a, []) = Inr (sort a, ms)
            \<and> bubbleSortAnimation bins (rev ms) = Inr b' \<and> map value b' = sort a
            \<and> onOptionClicked hs cs ''Bubble Sort'' (a, bins) = Some (Inr (sort a, b')))
       \<and> (\<exists>aux' ms b'. mergeSort (a, Map.empty, []) 0 (int (length a) - 1) = Inr (sort a, aux', ms)
            \<and> animateMergeSort hs cs bins (rev ms) = Inr b' \<and> map value b' = sort a
            \<and> onOptionClicked hs cs ''Merge Sort'' (a, bins) = Some (Inr (sort a, b')))
       \<and> (\<exists>ms b'. quickSort (a, []) 0 (int (length a) - 1) = Some (Inr (sort a, ms))
            \<and> animateQuickSort bins (rev ms) = Inr b' \<and> map value b' = sort a
            \<and> onOptionClicked hs cs ''Quick Sort'' (a, bins) = Some (Inr (sort a, b')))
       \<and> ((\<forall>x\<in>set a. 0 \<le> x) \<longrightarrow>
           (\<exists>ms b'. countingSort (a, []) = Inr (sort a, ms)
            \<and> animateCountingSort hs cs bins (rev ms) = Inr b' \<and> map value b' = sort a
            \<and> onOptionClicked hs cs ''Counting Sort'' (a, bins) = Some (Inr (sort a, b'))))"
proof (intro conjI impI)
  from bubbleSort_correct [OF assms]
  obtain ms b' where r: "bubbleSort (a, []) = Inr (sort a, ms)"
    "bubbleSortAnimation bins (rev ms) = Inr b'" "map value b' = sort a"
    by blast
  have "onOptionClicked hs cs ''Bubble Sort'' (a, bins) = Some (Inr (sort a, b'))"
    using r(1,2) by (simp add: onOptionClicked_bubble)
  then show "\<exists>ms b'. bubbleSort (a, []) = Inr (sort a, ms)
            \<and> bubbleSortAnimation bins (rev ms) = Inr b' \<and> map value b' = sort a
            \<and> onOptionClicked hs cs ''Bubble Sort'' (a, bins) = Some (Inr (sort a, b'))"
    using r by blast
next
  from mergeSort_replay [OF assms, where hs = hs and cs = cs]
  obtain aux' ms b' where r: "mergeSort (a, Map.empty, []) 0 (int (length a) - 1) = Inr (sort a, aux', ms)"
    "animateMergeSort hs cs bins (rev ms) = Inr b'" "map value b' = sort a"
    by blast
  have "onOptionClicked hs cs ''Merge Sort'' (a, bins) = Some (Inr (sort a, b'))"
    using r(1,2) by (simp add: onOptionClicked_merge)
  then show "\<exists>aux' ms b'. mergeSort (a, Map.empty, []) 0 (int (length a) - 1) = Inr (sort a, aux', ms)
            \<and> animateMergeSort hs cs bins (rev ms) = Inr b' \<and> map value b' = sort a
            \<and> onOptionClicked hs cs ''Merge Sort'' (a, bins) = Some (Inr (sort a, b'))"
    using r by blast
next
  from quickSort_replay [OF assms]
  obtain ms b' where r: "quickSort (a, []) 0 (int (length a) - 1) = Some (Inr (sort a, ms))"
    "animateQuickSort bins (rev ms) = Inr b'" "map value b' = sort a"
    by blast
  have "onOptionClicked hs cs ''Quick Sort'' (a, bins) = Some (Inr (sort a, b'))"
    using r(1,2) by (simp add: onOptionClicked_quick)
  then show "\<exists>ms b'. quickSort (a, []) 0 (int (length a) - 1) = Some (Inr (sort a, ms))
            \<and> animateQuickSort bins (rev ms) = Inr b' \<and> map value b' = sort a
            \<and> onOptionClicked hs cs ''Quick Sort'' (a, bins) = Some (Inr (sort a, b'))"
    using r by blast
next
  assume nn: "\<forall>x\<in>set a. 0 \<le> x"
  from countingSort_replay [OF nn assms, where hs = hs and cs = cs]
  obtain ms b' where r: "countingSort (a, []) = Inr (sort a, ms)"
    "animateCountingSort hs cs bins (rev ms) = Inr b'" "map value b' = sort a"
    by blast
  have "onOptionClicked hs cs ''Counting Sort'' (a, bins) = Some (Inr (sort a, b'))"
    using r(1,2) by (simp add: onOptionClicked_counting)
  then show "\<exists>ms b'. countingSort (a, []) = Inr (sort a, ms)
            \<and> animateCountingSort hs cs bins (rev ms) = Inr b' \<and> map value b' = sort a
            \<and> onOptionClicked hs cs ''Counting Sort'' (a, bins) = Some (Inr (sort a, b'))"
    using r by blast
qed

theorem replayed_moves_sort_the_display_witness:
  "(\<exists>ms b'. bubbleSort ([5, 3, 1, 4, 2], []) = Inr (sort [5, 3, 1, 4, 2], ms)
      \<and> bubbleSortAnimation
           (map (\<lambda>v. \<lparr>value = v, width = ''1px'', height = 2 * v, color = ''c''\<rparr>) [5, 3, 1, 4, 2])
           (rev ms) = Inr b'
      \<and> map value b' = sort [5, 3, 1, 4, 2])
   \<and> (\<exists>aux' ms b'. mergeSort ([5, 3, 1, 4, 2], Map.empty, []) 0 (int (length [5, 3, 1, 4, 2 :: int]) - 1)
          = Inr (sort [5, 3, 1, 4, 2], aux', ms)
      \<and> animateMergeSort (\<lambda>v. 2 * v) (\<lambda>h. ''c'')
           (map (\<lambda>v. \<lparr>value = v, width = ''1px'', height = 2 * v, color = ''c''\<rparr>) [5, 3, 1, 4, 2])
           (rev ms) = Inr b'
      \<and> map value b' = sort [5, 3, 1, 4, 2])
   \<and> (\<exists>ms b'. quickSort ([5, 3, 1, 4, 2], []) 0 (int (length [5, 3, 1, 4, 2 :: int]) - 1)
          = Some (Inr (sort [5, 3, 1, 4, 2], ms))
      \<and> animateQuickSort
           (map (\<lambda>v. \<lparr>value = v, width = ''1px'', height = 2 * v, color = ''c''\<rparr>) [5, 3, 1, 4, 2])
           (rev ms) = Inr b'
      \<and> map value b' = sort [5, 3, 1, 4, 2])
   \<and> (\<exists>ms b'. countingSort ([5, 3, 1, 4, 2], []) = Inr (sort [5, 3, 1, 4, 2], ms)
      \<and> animateCountingSort (\<lambda>v. 2 * v) (\<lambda>h. ''c'')
           (map (\<lambda>v. \<lparr>value = v, width = ''1px'', height = 2 * v, color = ''c''\<rparr>) [5, 3, 1, 4, 2])
           (rev ms) = Inr b'
      \<and> map value b' = sort [5, 3, 1, 4, 2])"
proof -
  let ?a = "[5, 3, 1, 4, 2 :: int]"
  let ?bins = "map (\<lambda>v. \<lparr>value = v, width = ''1px'', height = 2 * v, color = ''c''\<rparr>) ?a"
  have v: "map value ?bins = ?a" by simp
  note t = replayed_moves_sort_the_display [OF v, where hs = "\<lambda>v. 2 * v" and cs = "\<lambda>h. ''c''"]
  note c1 = t [THEN conjunct1]
  note c2 = t [THEN conjunct2, THEN conjunct1]
  note c3 = t [THEN conjunct2, THEN conjunct2, THEN conjunct1]
  note c4 = t [THEN conjunct2, THEN conjunct2, THEN conjunct2, THEN mp]
  have nn: "\<forall>x\<in>set ?a. 0 \<le> x" by simp
  show ?thesis
    using c1 c2 c3 c4 [OF nn] by blast
qed

text \<open>
  On a negative key \<open>countingSort\<close> behaves as the JavaScript does: the tally and the
  placement address the property \<open>-1\<close>, then \<open>NaN\<close>, of the arrays, no slot is
  written, and the array is overwritten with the zeros of the auxiliary array; the replay
  of the move fails on \<open>binDimensions[NaN]\<close>.
\<close>

theorem countingSort_negative_key_counterexample:
  "countingSort ([- 1], []) = Inr ([0], [IndexNewValue NaN (- 1)])
   \<and> animateCountingSort (\<lambda>v. 2 * v) (\<lambda>h. ''c'')
        [\<lparr>value = - 1, width = ''1px'', height = - 2, color = ''c''\<rparr>]
        (rev [IndexNewValue NaN (- 1)]) = Inl TypeError
   \<and> onOptionClicked (\<lambda>v. 2 * v) (\<lambda>h. ''c'') ''Counting Sort''
        ([- 1], [\<lparr>value = - 1, width = ''1px'', height = - 2, color = ''c''\<rparr>]) = Some (Inl TypeError)
   \<and> sort [- 1 :: int] \<noteq> [0]"
proof -
  have r: "countingSort ([- 1], []) = Inr ([0], [IndexNewValue NaN (- 1)])"
    by (simp add: countingSort_def countingSort_init_def countingSort_tally.simps
        countingSort_accumulate.simps countingSort_place.simps countingSort_copy.simps
        read_def store_def in_range_def)
  have p: "animateCountingSort (\<lambda>v. 2 * v) (\<lambda>h. ''c'')
        [\<lparr>value = - 1, width = ''1px'', height = - 2, color = ''c''\<rparr>]
        (rev [IndexNewValue NaN (- 1)]) = Inl TypeError"
    by (simp add: animateCountingSort.simps calculateBinDimension_def)
  show ?thesis
    using r p by (simp add: onOptionClicked_counting)
qed

section \<open>The validator marks the matching prefix\<close>

lemma validate_loop_prefix:
  assumes "length bins = length sorted_ref"
      and "k \<le> length sorted_ref"
      and "\<forall>i<k. value (bins ! i) = sorted_ref ! i"
      and "k < length sorted_ref \<longrightarrow> value (bins ! k) \<noteq> sorted_ref ! k"
      and "i \<le> k"
  shows "validate_loop bins sorted_ref (int i) vs =
         Inr (vs @ map (\<lambda>i. \<lparr>index = int i, originalColor = color (bins ! i)\<rparr>) [i..<k])"
  using assms(5)
proof (induction "k - i" arbitrary: i vs)
  case 0
  then have ik: "i = k" by simp
  show ?case
  proof (cases "k < length sorted_ref")
    case True
    then have "read bins (int k) = Inr (bins ! k)" "read sorted_ref (int k) = Inr (sorted_ref ! k)"
      using assms(1) by (simp_all add: read_def in_range_def)
    then show ?thesis
      using True assms(4) ik by (simp add: validate_loop.simps [of bins sorted_ref "int k"])
  next
    case False
    then show ?thesis
      using ik by (simp add: validate_loop.simps [of bins sorted_ref "int k"])
  qed
next
  case (Suc d)
  then have lt: "i < k" and d: "d = k - Suc i" by simp_all
  then have il: "i < length sorted_ref" using assms(2) by simp
  then have rd: "read bins (int i) = Inr (bins ! i)" "read sorted_ref (int i) = Inr (sorted_ref ! i)"
    using assms(1) by (simp_all add: read_def in_range_def)
  have eq: "value (bins ! i) = sorted_ref ! i" using assms(3) lt by simp
  have step: "validate_loop bins sorted_ref (int i) vs =
              validate_loop bins sorted_ref (int (Suc i))
                (vs @ [\<lparr>index = int i, originalColor = color (bins ! i)\<rparr>])"
    using il rd eq by (simp add: validate_loop.simps [of bins sorted_ref "int i"] add.commute)
  have "Suc i \<le> k" using lt by simp
  from Suc.hyps(1) [OF d this] step show ?case
    using lt by (simp add: upt_conv_Cons)
qed

text \<open>
  Claim C7. When the display state has as many entries as the retained pre-sort copy and
  its values agree with the ascending sort of that copy exactly on the indices below \<open>k\<close>
  (\<open>k\<close> is the length when they agree everywhere, the first index where they differ
  otherwise), \<open>validateArray\<close> records one validation record for each of the indices
  \<open>0 .. k - 1\<close>, in increasing order, each with the colour of that entry, and none beyond.
\<close>

theorem validateArray_marks_matching_prefix:
  assumes "length bins = length unsorted"
      and "k \<le> length unsorted"
      and "\<forall>i<k. value (bins ! i) = sort unsorted ! i"
      and "k < length unsorted \<longrightarrow> value (bins ! k) \<noteq> sort unsorted ! k"
  shows "validateArray bins unsorted [] =
         Inr (map (\<lambda>i. \<lparr>index = int i, originalColor = color (bins ! i)\<rparr>) [0..<k])"
proof -
  have "validate_loop bins (sort unsorted) (int 0) [] =
        Inr ([] @ map (\<lambda>i. \<lparr>index = int i, originalColor = color (bins ! i)\<rparr>) [0..<k])"
    by (rule validate_loop_prefix) (use assms in simp_all)
  then show ?thesis by (simp add: validateArray_def)
qed

theorem validateArray_marks_matching_prefix_witness:
  "validateArray
     [\<lparr>value = 1, width = ''5px'', height = (10::nat), color = ''c1''\<rparr>,
      \<lparr>value = 3, width = ''5px'', height = 30, color = ''c3''\<rparr>]
     [2, 1] []
   = Inr [\<lparr>index = 0, originalColor = ''c1''\<rparr>]"
  using validateArray_marks_matching_prefix
    [of "[\<lparr>value = 1, width = ''5px'', height = (10::nat), color = ''c1''\<rparr>,
          \<lparr>value = 3, width = ''5px'', height = 30, color = ''c3''\<rparr>]" "[2, 1]" 1]
  by simp

text \<open>
  Claim C9. The handler subscribed to the comparison-count subject assigns
  \<open>comparisonCount\<close> from itself: whatever value is emitted, the displayed comparison count
  (and the whole component) is left as it was.
\<close>

theorem comparison_count_handler_is_noop:
  "comparisonCount (on_updateComparisonCount newCount c) = comparisonCount c
   \<and> on_updateComparisonCount newCount c = c"
  by (simp add: on_updateComparisonCount_def)

end
